theory Spec2Isabelle
  imports Complex_Main
begin

section \<open>Numbers, errors and Python helpers\<close>

text \<open>
  The two modules \<^verbatim>\<open>fwer_corrections.py\<close> and \<^verbatim>\<open>stattests.py\<close> compute with Python
  numbers. Python floats are modelled as the real numbers they stand for (no rounding, no
  NaN, no infinities); Python ints are \<open>int\<close> or \<open>nat\<close>. Exceptions are values of the type
  \<open>error\<close>; a function that can raise returns \<open>error + 'a\<close> with \<open>Inl\<close> for the exception.
\<close>

datatype error = AssertionError | ZeroDivisionError | ValueError | KeyError | TypeError

text \<open>\<^verbatim>\<open>range(a, b, -1)\<close>: the integers \<open>a, a - 1, \<dots>, b + 1\<close>.\<close>

definition range_desc :: "int \<Rightarrow> int \<Rightarrow> int list" where
  "range_desc a b = map (\<lambda>k. a - int k) [0..<nat (a - b)]"

section \<open>fwer\_corrections.py\<close>

text \<open>
  The private routines receive the numpy array built by the dispatcher; it is modelled as a
  \<open>real list\<close>, with numpy's elementwise \<^verbatim>\<open>*\<close> and \<^verbatim>\<open><\<close> written as \<open>map\<close>. The leading
  underscore of the Python names is dropped.
\<close>

definition bonferroni :: "real list \<Rightarrow> real \<Rightarrow> bool list \<times> real list" where
  "bonferroni p_values alpha =
     (let n = length p_values;
          corrected_pvals = map (\<lambda>p. p * real n) p_values
      in (map (\<lambda>c. c < alpha) corrected_pvals, corrected_pvals))"

text \<open>
  \<^verbatim>\<open>(1 - alpha) ** (1. / n)\<close> is \<open>powr\<close>, which agrees with Python's float power for a
  base \<open>\<ge> 0\<close> and a positive exponent, that is for \<open>alpha \<le> 1\<close>; the documented
  range of \<open>alpha\<close> is between 0 and 1, and the properties of \<open>sidak\<close> below are stated
  for \<open>alpha \<le> 1\<close>. The division of two Python floats raises when the divisor is zero.
\<close>

definition sidak_correction :: "nat \<Rightarrow> real \<Rightarrow> error + real" where
  "sidak_correction n alpha =
     (if n \<noteq> 0
      then (if 1 - (1 - alpha) powr (1 / real n) = 0 then Inl ZeroDivisionError
            else Inr (alpha * 1 / (1 - (1 - alpha) powr (1 / real n))))
      else Inr 1)"

definition sidak :: "real list \<Rightarrow> real \<Rightarrow> error + (bool list \<times> real list)" where
  "sidak p_values alpha =
     (let n = length p_values in
      case sidak_correction n alpha of
        Inl e \<Rightarrow> Inl e
      | Inr correction \<Rightarrow>
          (let corrected_pvals = map (\<lambda>p. p * correction) p_values
           in Inr (map (\<lambda>c. c < alpha) corrected_pvals, corrected_pvals)))"

text \<open>
  \<^verbatim>\<open>sorted\<close> is stable, as \<open>sort_key\<close> is. The \<^verbatim>\<open>for\<close> loop with its \<^verbatim>\<open>break\<close> is
  \<open>collect_trues\<close>; \<^verbatim>\<open>results[trues] = True\<close> is \<open>set_trues\<close>.
\<close>

definition sorted_pvals_tup :: "real list \<Rightarrow> (nat \<times> real) list" where
  "sorted_pvals_tup p_values = sort_key snd (enumerate 0 p_values)"

definition corrected_pvals_tup :: "real list \<Rightarrow> (nat \<times> real) list" where
  "corrected_pvals_tup p_values =
     map (\<lambda>(ind_p, factor). (fst ind_p, snd ind_p * real_of_int factor))
       (zip (sorted_pvals_tup p_values) (range_desc (int (length p_values)) 0))"

fun collect_trues :: "real \<Rightarrow> (nat \<times> real) list \<Rightarrow> nat list" where
  "collect_trues alpha [] = []"
| "collect_trues alpha ((orig_ind, corrected_pval) # rest) =
     (if corrected_pval < alpha then orig_ind # collect_trues alpha rest else [])"

definition set_trues :: "nat list \<Rightarrow> bool list \<Rightarrow> bool list" where
  "set_trues trues results = fold (\<lambda>i r. r[i := True]) trues results"

definition holm_bonferroni :: "real list \<Rightarrow> real \<Rightarrow> bool list \<times> real list" where
  "holm_bonferroni p_values alpha =
     (let trues = collect_trues alpha (corrected_pvals_tup p_values);
          corrected_pvals = map snd (sort_key fst (corrected_pvals_tup p_values));
          results = set_trues trues (replicate (length p_values) False)
      in (results, corrected_pvals))"

text \<open>
  The dispatcher: the dictionary \<^verbatim>\<open>routines\<close> is an association list, the \<^verbatim>\<open>assert\<close> is
  the \<open>None\<close> branch of the lookup, and \<^verbatim>\<open>np.array(p_values)\<close> is the identity on a
  \<open>real list\<close>.
\<close>

definition routines :: "(string \<times> (real list \<Rightarrow> real \<Rightarrow> error + (bool list \<times> real list))) list" where
  "routines =
     [(''holm_bonferroni'', \<lambda>p a. Inr (holm_bonferroni p a)),
      (''bonferroni'', \<lambda>p a. Inr (bonferroni p a)),
      (''sidak'', sidak)]"

definition test_corrected :: "real list \<Rightarrow> real \<Rightarrow> string \<Rightarrow> error + (bool list \<times> real list)" where
  "test_corrected p_values alpha routine =
     (case map_of routines routine of
        None \<Rightarrow> Inl AssertionError
      | Some f \<Rightarrow> (let pvals = p_values in f pvals alpha))"

section \<open>stattests.py\<close>

text \<open>
  A rank is a Python int until the tie loop replaces it by a float; \<^verbatim>\<open>range\<close> accepts
  only an int, so the two are kept apart in the dictionary.
\<close>

datatype pynum = PyInt int | PyFloat real

fun num_val :: "pynum \<Rightarrow> real" where
  "num_val (PyInt i) = real_of_int i"
| "num_val (PyFloat x) = x"

text \<open>
  \<^verbatim>\<open>Counter(values).items()\<close>: the distinct values in the order of their first occurrence,
  each with the number of its occurrences.
\<close>

definition Counter :: "'a list \<Rightarrow> ('a \<times> nat) list" where
  "Counter values = map (\<lambda>v. (v, count_list values v)) (rev (remdups (rev values)))"

text \<open>
  The dictionary comprehension of \<^verbatim>\<open>rank\<close>: a later entry for the same value overwrites
  the earlier one.
\<close>

definition enumerate_ranks :: "'a list \<Rightarrow> ('a \<rightharpoonup> pynum)" where
  "enumerate_ranks sorted_values =
     fold (\<lambda>(i, value) ranks. ranks(value \<mapsto> PyInt (int i + 1)))
       (enumerate 0 sorted_values) Map.empty"

text \<open>The loop of \<^verbatim>\<open>rank\<close> over the values that occur more than once.\<close>

fun average_ties :: "('a \<times> nat) list \<Rightarrow> ('a \<rightharpoonup> pynum) \<Rightarrow> error + ('a \<rightharpoonup> pynum)" where
  "average_ties [] ranks = Inr ranks"
| "average_ties ((value, count) # rest) ranks =
     (case ranks value of
        None \<Rightarrow> Inl KeyError
      | Some (PyFloat x) \<Rightarrow> Inl TypeError
      | Some (PyInt r) \<Rightarrow>
          average_ties rest
            (ranks(value \<mapsto>
               PyFloat (real_of_int (sum_list (range_desc r (r - int count))) / real count))))"

text \<open>
  \<^verbatim>\<open>sorted(values, reverse=True)\<close> is the descending list; equal values are the same
  value, so it is the reverse of the ascending one.
\<close>

definition rank :: "'a::linorder list \<Rightarrow> error + ('a \<rightharpoonup> pynum)" where
  "rank values =
     (let c = Counter values;
          ranks = enumerate_ranks (rev (sort values))
      in average_ties (filter (\<lambda>(value, count). count > 1) c) ranks)"

text \<open>
  The rank in closed form, for stating what \<open>rank\<close> computes: \<open>p - (count - 1) / 2\<close>, where
  \<open>count\<close> is the number of occurrences of \<open>v\<close> and \<open>p\<close> the number of values \<open>\<ge> v\<close>, which
  is the last 1-based position of \<open>v\<close> in the descending order.
\<close>

definition mean_rank :: "'a::linorder list \<Rightarrow> 'a \<Rightarrow> real" where
  "mean_rank values v =
     real (length (filter (\<lambda>u. v \<le> u) values)) - (real (count_list values v) - 1) / 2"

text \<open>
  \<^verbatim>\<open>math.erf\<close> is the error function, given by its Maclaurin series
  \<open>2 / sqrt pi * (\<Sum>n. (- 1) ^ n * x ^ (2 * n + 1) / (n! * (2 * n + 1)))\<close>.
\<close>

definition erf_coeffs :: "nat \<Rightarrow> real" where
  "erf_coeffs n = (- 1) ^ n / (fact n * real (2 * n + 1))"

definition erf :: "real \<Rightarrow> real" where
  "erf x = 2 / sqrt pi * (\<Sum>n. erf_coeffs n * x ^ (2 * n + 1))"

definition z_to_p :: "real \<Rightarrow> real" where
  "z_to_p z = 0.5 * (1 + erf (z / sqrt 2))"

text \<open>
  The local variables of \<^verbatim>\<open>calculate_z\<close> that the properties below speak about are
  definitions of their own.
\<close>

definition U1 :: "real list \<Rightarrow> real list \<Rightarrow> real" where
  "U1 ranks1 ranks2 =
     (let n1 = int (length ranks1); n2 = int (length ranks2); R1 = sum_list ranks1
      in real_of_int (n1 * n2) + real_of_int (n1 * (n1 + 1)) / 2 - R1)"

definition U2 :: "real list \<Rightarrow> real list \<Rightarrow> real" where
  "U2 ranks1 ranks2 =
     (let n1 = int (length ranks1); n2 = int (length ranks2); R2 = sum_list ranks2
      in real_of_int (n1 * n2) + real_of_int (n2 * (n2 + 1)) / 2 - R2)"

definition sigma_term :: "real list \<Rightarrow> real list \<Rightarrow> real" where
  "sigma_term ranks1 ranks2 =
     (let count = Counter (ranks1 @ ranks2)
      in sum_list (map (\<lambda>value. real_of_int (int value ^ 3 - int value) / 12)
                     (filter (\<lambda>value. value > 1) (map snd count))))"

definition std :: "real list \<Rightarrow> real list \<Rightarrow> real" where
  "std ranks1 ranks2 =
     (let n1 = int (length ranks1); n2 = int (length ranks2); n = n1 + n2
      in sqrt (real_of_int (n1 * n2) / real_of_int (n * (n - 1))) *
         sqrt (real_of_int (n ^ 3 - n) / 12 - sigma_term ranks1 ranks2))"

text \<open>
  The \<^verbatim>\<open>assert\<close>, the division of two ints by \<open>n * (n - 1)\<close>, \<^verbatim>\<open>math.sqrt\<close> of a
  negative number and the division by \<open>std\<close> are the places where \<^verbatim>\<open>calculate_z\<close> can raise.
\<close>

definition calculate_z :: "real list \<Rightarrow> real list \<Rightarrow> error + real" where
  "calculate_z ranks1 ranks2 =
     (let n1 = int (length ranks1); n2 = int (length ranks2) in
      if U1 ranks1 ranks2 + U2 ranks1 ranks2 \<noteq> real_of_int (n1 * n2) then Inl AssertionError
      else
        let mean = real_of_int (n1 * n2) / 2; n = n1 + n2 in
        if n * (n - 1) = 0 then Inl ZeroDivisionError
        else if real_of_int (n1 * n2) / real_of_int (n * (n - 1)) < 0
                \<or> real_of_int (n ^ 3 - n) / 12 - sigma_term ranks1 ranks2 < 0
        then Inl ValueError
        else
          let U = min (U1 ranks1 ranks2) (U2 ranks1 ranks2) in
          if std ranks1 ranks2 = 0 then Inl ZeroDivisionError
          else Inr ((U - mean) / std ranks1 ranks2))"

text \<open>The list comprehensions \<^verbatim>\<open>[rank_dict[el] for el in x]\<close>.\<close>

fun lookup_ranks :: "('a \<rightharpoonup> pynum) \<Rightarrow> 'a list \<Rightarrow> error + real list" where
  "lookup_ranks rank_dict [] = Inr []"
| "lookup_ranks rank_dict (el # els) =
     (case rank_dict el of
        None \<Rightarrow> Inl KeyError
      | Some r \<Rightarrow>
          (case lookup_ranks rank_dict els of
             Inl e \<Rightarrow> Inl e
           | Inr rs \<Rightarrow> Inr (num_val r # rs)))"

definition mannwhitneyu :: "'a::linorder list \<Rightarrow> 'a list \<Rightarrow> real \<Rightarrow> error + (bool \<times> real)" where
  "mannwhitneyu x1 x2 p =
     (case rank (x1 @ x2) of
        Inl e \<Rightarrow> Inl e
      | Inr rank_dict \<Rightarrow>
     (case lookup_ranks rank_dict x1 of
        Inl e \<Rightarrow> Inl e
      | Inr x1_ranks \<Rightarrow>
     (case lookup_ranks rank_dict x2 of
        Inl e \<Rightarrow> Inl e
      | Inr x2_ranks \<Rightarrow>
     (case calculate_z x1_ranks x2_ranks of
        Inl e \<Rightarrow> Inl e
      | Inr z \<Rightarrow> (let p_val = z_to_p z in Inr (p_val < p / 2, p_val))))))"

section \<open>Holm-Bonferroni on the example vector\<close>

lemma range_desc_4: "range_desc 4 0 = [4, 3, 2, 1]"
  by (simp add: range_desc_def upt_rec)

lemma example_sorted:
  "sorted_pvals_tup [1/100, 1/25, 3/100, 1/200] =
     [(3, 1/200), (0, 1/100), (2, 3/100), (1, 1/25)]"
  by (simp add: sorted_pvals_tup_def enumerate_eq_zip upt_rec)

lemma example_corrected:
  "corrected_pvals_tup [1/100, 1/25, 3/100, 1/200] =
     [(3, 1/50), (0, 3/100), (2, 3/50), (1, 1/25)]"
  by (simp add: corrected_pvals_tup_def example_sorted range_desc_4)

lemma example_holm:
  "holm_bonferroni [1/100, 1/25, 3/100, 1/200] (1/20) =
     ([True, False, False, True], [3/100, 1/25, 3/50, 1/50])"
  by (simp add: holm_bonferroni_def example_corrected set_trues_def)

text \<open>
  C1 (amended). For \<open>p_values = [0.01, 0.04, 0.03, 0.005]\<close> and \<open>alpha = 0.05\<close>,
  Holm-Bonferroni sorts ascending to \<open>[0.005, 0.01, 0.03, 0.04]\<close> (original indices
  3, 0, 2, 1), applies the multipliers \<open>[4, 3, 2, 1]\<close>, which gives the corrected sorted
  values \<open>[0.02, 0.03, 0.06, 0.04]\<close>, marks the original indices 3 and 0 (the positions of
  0.02 and 0.03) and stops at 0.06. In the order of the original indices the returned
  significance vector is \<open>[True, False, False, True]\<close>.
\<close>

theorem holm_bonferroni_example:
  "map snd (sorted_pvals_tup [0.01, 0.04, 0.03, 0.005]) = [0.005, 0.01, 0.03, 0.04]
   \<and> map fst (sorted_pvals_tup [0.01, 0.04, 0.03, 0.005]) = [3, 0, 2, 1]
   \<and> range_desc (int (length [0.01, 0.04, 0.03, 0.005 :: real])) 0 = [4, 3, 2, 1]
   \<and> map snd (corrected_pvals_tup [0.01, 0.04, 0.03, 0.005]) = [0.02, 0.03, 0.06, 0.04]
   \<and> collect_trues 0.05 (corrected_pvals_tup [0.01, 0.04, 0.03, 0.005]) = [3, 0]
   \<and> fst (holm_bonferroni [0.01, 0.04, 0.03, 0.005] 0.05) = [True, False, False, True]"
  using example_sorted example_corrected example_holm range_desc_4 by simp

text \<open>
  C1 as stated fails: the significance vector \<open>[True, True, False, False]\<close> is the one in
  sorted order, not in the order of the original indices.
\<close>

theorem holm_bonferroni_example_counterexample:
  "fst (holm_bonferroni [0.01, 0.04, 0.03, 0.005] 0.05) \<noteq> [True, True, False, False]"
  using example_holm by simp

section \<open>The step-down rule of Holm-Bonferroni\<close>

lemma length_range_desc: "length (range_desc a b) = nat (a - b)"
  by (simp add: range_desc_def)

lemma nth_range_desc: "k < nat (a - b) \<Longrightarrow> range_desc a b ! k = a - int k"
  by (simp add: range_desc_def)

lemma length_sorted_pvals_tup: "length (sorted_pvals_tup ps) = length ps"
  by (simp add: sorted_pvals_tup_def)

lemma length_corrected_pvals_tup: "length (corrected_pvals_tup ps) = length ps"
  by (simp add: corrected_pvals_tup_def length_sorted_pvals_tup length_range_desc)

lemma nth_corrected_pvals_tup:
  assumes "k < length ps"
  shows "corrected_pvals_tup ps ! k =
           (fst (sorted_pvals_tup ps ! k), snd (sorted_pvals_tup ps ! k) * real (length ps - k))"
  using assms
  by (simp add: corrected_pvals_tup_def length_sorted_pvals_tup length_range_desc
      nth_range_desc of_nat_diff)

lemma set_sorted_pvals_tup: "set (sorted_pvals_tup ps) = {(i, ps ! i) | i. i < length ps}"
  by (auto simp: sorted_pvals_tup_def in_set_enumerate_eq)

lemma sorted_pvals_tup_nth:
  assumes "k < length ps"
  shows "fst (sorted_pvals_tup ps ! k) < length ps"
    and "snd (sorted_pvals_tup ps ! k) = ps ! fst (sorted_pvals_tup ps ! k)"
proof -
  have "sorted_pvals_tup ps ! k \<in> set (sorted_pvals_tup ps)"
    using assms by (simp add: length_sorted_pvals_tup)
  then obtain i where "sorted_pvals_tup ps ! k = (i, ps ! i)" "i < length ps"
    unfolding set_sorted_pvals_tup by blast
  then show "fst (sorted_pvals_tup ps ! k) < length ps"
    and "snd (sorted_pvals_tup ps ! k) = ps ! fst (sorted_pvals_tup ps ! k)"
    by simp_all
qed

lemma distinct_fst_sorted_pvals_tup: "distinct (map fst (sorted_pvals_tup ps))"
proof -
  have "distinct (map fst (enumerate 0 ps))" by simp
  then have "distinct (enumerate 0 ps) \<and> inj_on fst (set (enumerate 0 ps))"
    unfolding distinct_map .
  then show ?thesis
    by (simp add: sorted_pvals_tup_def distinct_map)
qed

lemma sorted_snd_sorted_pvals_tup: "sorted (map snd (sorted_pvals_tup ps))"
  by (simp add: sorted_pvals_tup_def)

lemma map_fst_corrected_pvals_tup:
  "map fst (corrected_pvals_tup ps) = map fst (sorted_pvals_tup ps)"
  by (rule nth_equalityI)
    (simp_all add: length_corrected_pvals_tup length_sorted_pvals_tup nth_corrected_pvals_tup)

lemma set_fst_corrected_pvals_tup: "fst ` set (corrected_pvals_tup ps) = {0..<length ps}"
proof -
  have "fst ` set (corrected_pvals_tup ps) = set (map fst (sorted_pvals_tup ps))"
    by (simp add: map_fst_corrected_pvals_tup [symmetric])
  also have "\<dots> = fst ` set (enumerate 0 ps)"
    by (simp add: sorted_pvals_tup_def)
  also have "\<dots> = set (map fst (enumerate 0 ps))" by (simp only: set_map)
  also have "\<dots> = {0..<length ps}" by (simp only: map_fst_enumerate) simp
  finally show ?thesis .
qed

lemma collect_trues_takeWhile:
  "collect_trues alpha xs = map fst (takeWhile (\<lambda>x. snd x < alpha) xs)"
  by (induction xs) auto

lemma length_set_trues: "length (set_trues trues r) = length r"
  unfolding set_trues_def by (induction trues arbitrary: r) simp_all

lemma nth_set_trues:
  "i < length r \<Longrightarrow> set_trues trues r ! i = (i \<in> set trues \<or> r ! i)"
  unfolding set_trues_def
proof (induction trues arbitrary: r)
  case Nil
  then show ?case by simp
next
  case (Cons t trues)
  have "fold (\<lambda>i r. r[i := True]) (t # trues) r ! i =
          fold (\<lambda>i r. r[i := True]) trues (r[t := True]) ! i"
    by simp
  also have "\<dots> = (i \<in> set trues \<or> r[t := True] ! i)"
    using Cons.prems by (intro Cons.IH) simp
  also have "\<dots> = (i \<in> set (t # trues) \<or> r ! i)"
    using Cons.prems by (cases "i = t") simp_all
  finally show ?case .
qed

lemma length_takeWhile_less_iff:
  "k < length xs \<Longrightarrow> k < length (takeWhile P xs) \<longleftrightarrow> (\<forall>j\<le>k. P (xs ! j))"
proof (induction xs arbitrary: k)
  case Nil
  then show ?case by simp
next
  case (Cons x xs)
  show ?case
  proof (cases k)
    case 0
    then show ?thesis by simp
  next
    case (Suc k')
    with Cons.prems have k': "k' < length xs" by simp
    have "(\<forall>j\<le>Suc k'. P ((x # xs) ! j)) \<longleftrightarrow> P x \<and> (\<forall>j\<le>k'. P (xs ! j))"
      by (auto simp: nth_Cons split: nat.splits)
    with Cons.IH [OF k'] Suc show ?thesis by simp
  qed
qed

lemma key_in_takeWhile_iff:
  assumes "distinct (map f xs)" "k < length xs"
  shows "f (xs ! k) \<in> set (map f (takeWhile P xs)) \<longleftrightarrow> k < length (takeWhile P xs)"
proof
  assume "f (xs ! k) \<in> set (map f (takeWhile P xs))"
  then obtain j where j: "j < length (takeWhile P xs)" "f (takeWhile P xs ! j) = f (xs ! k)"
    by (auto simp: in_set_conv_nth)
  have jl: "j < length xs"
    using j(1) length_takeWhile_le [of P xs] by simp
  have "f (xs ! j) = f (xs ! k)"
    using j by (simp add: takeWhile_nth)
  then have "j = k"
    using nth_eq_iff_index_eq [OF assms(1), of j k] jl assms(2) by simp
  with j(1) show "k < length (takeWhile P xs)" by simp
next
  assume k: "k < length (takeWhile P xs)"
  then have "takeWhile P xs ! k = xs ! k" by (rule takeWhile_nth)
  with k show "f (xs ! k) \<in> set (map f (takeWhile P xs))"
    by (metis imageI nth_mem set_map)
qed

lemma holm_significant_nth:
  assumes "k < length ps"
  shows "fst (holm_bonferroni ps alpha) ! fst (corrected_pvals_tup ps ! k) =
           (\<forall>j\<le>k. snd (corrected_pvals_tup ps ! j) < alpha)"
proof -
  let ?T = "corrected_pvals_tup ps"
  have kT: "k < length ?T" using assms by (simp add: length_corrected_pvals_tup)
  have d: "distinct (map fst ?T)"
    by (simp add: map_fst_corrected_pvals_tup distinct_fst_sorted_pvals_tup)
  have "fst (?T ! k) \<in> fst ` set ?T" using kT by simp
  then have i: "fst (?T ! k) < length ps"
    unfolding set_fst_corrected_pvals_tup by simp
  have "fst (holm_bonferroni ps alpha) ! fst (?T ! k) =
          (fst (?T ! k) \<in> set (collect_trues alpha ?T))"
    using i by (simp add: holm_bonferroni_def Let_def nth_set_trues)
  also have "\<dots> = (k < length (takeWhile (\<lambda>x. snd x < alpha) ?T))"
    unfolding collect_trues_takeWhile by (rule key_in_takeWhile_iff [OF d kT])
  also have "\<dots> = (\<forall>j\<le>k. snd (?T ! j) < alpha)"
    by (rule length_takeWhile_less_iff [OF kT])
  finally show ?thesis .
qed

lemma corrected_pvals_tup_nth:
  assumes "k < length ps"
  shows "fst (corrected_pvals_tup ps ! k) < length ps"
    and "snd (corrected_pvals_tup ps ! k) =
           ps ! fst (corrected_pvals_tup ps ! k) * real (length ps - k)"
  using sorted_pvals_tup_nth [OF assms] by (simp_all add: nth_corrected_pvals_tup [OF assms])

lemma sorted_position_exists:
  assumes "i < length ps"
  shows "\<exists>a < length ps. fst (corrected_pvals_tup ps ! a) = i"
proof -
  have "i \<in> fst ` set (corrected_pvals_tup ps)"
    using assms by (simp add: set_fst_corrected_pvals_tup)
  then obtain x where "x \<in> set (corrected_pvals_tup ps)" "fst x = i" by auto
  then show ?thesis
    by (auto simp: in_set_conv_nth length_corrected_pvals_tup)
qed

lemma sorted_position_mono:
  assumes "a \<le> k" "k < length ps"
  shows "ps ! fst (corrected_pvals_tup ps ! a) \<le> ps ! fst (corrected_pvals_tup ps ! k)"
proof -
  have a: "a < length ps" using assms by simp
  have "map snd (sorted_pvals_tup ps) ! a \<le> map snd (sorted_pvals_tup ps) ! k"
    using assms by (intro sorted_nth_mono sorted_snd_sorted_pvals_tup)
      (simp_all add: length_sorted_pvals_tup)
  then have "snd (sorted_pvals_tup ps ! a) \<le> snd (sorted_pvals_tup ps ! k)"
    using a assms(2) by (simp add: length_sorted_pvals_tup)
  then show ?thesis
    using sorted_pvals_tup_nth(2) [OF a] sorted_pvals_tup_nth(2) [OF assms(2)]
    by (simp add: nth_corrected_pvals_tup a assms(2))
qed

lemma map_fst_sort_key_fst:
  "map fst (sort_key fst (corrected_pvals_tup ps)) = [0..<length ps]"
proof (rule sorted_distinct_set_unique)
  show "sorted (map fst (sort_key fst (corrected_pvals_tup ps)))" by simp
  have "distinct (map fst (corrected_pvals_tup ps))"
    by (simp add: map_fst_corrected_pvals_tup distinct_fst_sorted_pvals_tup)
  then show "distinct (map fst (sort_key fst (corrected_pvals_tup ps)))"
    by (simp add: distinct_map)
  show "set (map fst (sort_key fst (corrected_pvals_tup ps))) = set [0..<length ps]"
    using set_fst_corrected_pvals_tup [of ps] by simp
qed simp_all

lemma holm_corrected_nth:
  assumes "k < length ps"
  shows "snd (holm_bonferroni ps alpha) ! fst (corrected_pvals_tup ps ! k) =
           snd (corrected_pvals_tup ps ! k)"
proof -
  let ?T = "corrected_pvals_tup ps" and ?Q = "sort_key fst (corrected_pvals_tup ps)"
  have "?T ! k \<in> set ?Q"
    using assms by (simp add: length_corrected_pvals_tup)
  then obtain i where "i < length ?Q" and iq: "?Q ! i = ?T ! k"
    unfolding in_set_conv_nth by blast
  then have i: "i < length ps" "?Q ! i = ?T ! k"
    by (simp_all add: length_corrected_pvals_tup)
  have "map fst ?Q ! i = i"
    using i(1) by (simp only: map_fst_sort_key_fst) simp
  then have "fst (?T ! k) = i"
    using i by (simp add: length_corrected_pvals_tup)
  then show ?thesis
    using i by (simp add: holm_bonferroni_def Let_def length_corrected_pvals_tup)
qed

text \<open>
  C3. Write \<open>T = corrected_pvals_tup ps\<close> for the list scanned by the loop: its position
  \<open>k\<close> holds the original index and the corrected value \<open>p * (n - k)\<close> of the \<open>k\<close>-th smallest
  p-value. For every p-value vector and \<open>alpha\<close>, the flag returned at the original index of
  sorted position \<open>k\<close> is true exactly when the corrected values at all sorted positions
  \<open>j \<le> k\<close> are below \<open>alpha\<close>: the significant positions are a prefix of the scan, cut at the
  first corrected value \<open>\<ge> alpha\<close>, and every later position is non-significant whatever its
  corrected value. The corrected value returned at that original index is the one of position
  \<open>k\<close>. Consequently there is an input with \<open>corrected_pvals[i] < alpha\<close> and
  \<open>significant[i] = False\<close>.
\<close>

theorem holm_step_down:
  "(\<forall>k < length ps.
      fst (corrected_pvals_tup ps ! k) < length ps
      \<and> snd (corrected_pvals_tup ps ! k) =
          ps ! fst (corrected_pvals_tup ps ! k) * real (length ps - k)
      \<and> snd (holm_bonferroni ps alpha) ! fst (corrected_pvals_tup ps ! k) =
          snd (corrected_pvals_tup ps ! k)
      \<and> fst (holm_bonferroni ps alpha) ! fst (corrected_pvals_tup ps ! k) =
          (\<forall>j\<le>k. snd (corrected_pvals_tup ps ! j) < alpha)
      \<and> (\<forall>j\<le>k. \<not> snd (corrected_pvals_tup ps ! j) < alpha \<longrightarrow>
            \<not> fst (holm_bonferroni ps alpha) ! fst (corrected_pvals_tup ps ! k)))
   \<and> sorted (map snd (sorted_pvals_tup ps))
   \<and> map fst (corrected_pvals_tup ps) = map fst (sorted_pvals_tup ps)
   \<and> (\<exists>qs beta i. i < length qs \<and> snd (holm_bonferroni qs beta) ! i < beta
          \<and> \<not> fst (holm_bonferroni qs beta) ! i)"
proof -
  have "\<exists>qs beta i. i < length qs \<and> snd (holm_bonferroni qs beta) ! i < beta
          \<and> \<not> fst (holm_bonferroni qs beta) ! i"
  proof (intro exI conjI)
    show "1 < length [1/100, 1/25, 3/100, 1/200 :: real]" by simp
    show "snd (holm_bonferroni [1/100, 1/25, 3/100, 1/200] (1/20)) ! 1 < 1/20"
      by (simp add: example_holm)
    show "\<not> fst (holm_bonferroni [1/100, 1/25, 3/100, 1/200] (1/20)) ! 1"
      by (simp add: example_holm)
  qed
  then show ?thesis
    using holm_significant_nth [of _ ps alpha] holm_corrected_nth [of _ ps alpha]
      corrected_pvals_tup_nth [of _ ps] sorted_snd_sorted_pvals_tup [of ps]
      map_fst_corrected_pvals_tup [of ps]
    by auto
qed

theorem holm_step_down_witness:
  "(3::nat) < length [1/100, 1/25, 3/100, 1/200 :: real]
   \<and> fst (corrected_pvals_tup [1/100, 1/25, 3/100, 1/200] ! 3) = 1
   \<and> snd (holm_bonferroni [1/100, 1/25, 3/100, 1/200] (1/20)) ! 1 = 1/25
   \<and> \<not> snd (corrected_pvals_tup [1/100, 1/25, 3/100, 1/200] ! 2) < 1/20
   \<and> \<not> fst (holm_bonferroni [1/100, 1/25, 3/100, 1/200] (1/20)) ! 1"
proof -
  have k: "(3::nat) < length [1/100, 1/25, 3/100, 1/200 :: real]" by simp
  have i: "fst (corrected_pvals_tup [1/100, 1/25, 3/100, 1/200] ! 3) = 1"
    by (simp add: example_corrected)
  have c: "\<not> snd (corrected_pvals_tup [1/100, 1/25, 3/100, 1/200] ! 2) < 1/20"
    by (simp add: example_corrected)
  have j: "(2::nat) \<le> 3" by simp
  from holm_step_down [of "[1/100, 1/25, 3/100, 1/200]" "1/20"] k i c j show ?thesis
    by (metis example_corrected nth_Cons_Suc numeral_3_eq_3 numeral_2_eq_2 nth_Cons_0 snd_conv)
qed

text \<open>
  The monotonicity below is a property of p-values, that is of numbers \<open>\<ge> 0\<close>: with negative
  numbers a later position of the same value has a larger corrected value.
\<close>

lemma step_down_negative_values:
  "holm_bonferroni [- 1, - 1] (- 3 / 2) = ([True, False], [- 2, - 1])"
  by (simp add: holm_bonferroni_def corrected_pvals_tup_def sorted_pvals_tup_def
      range_desc_def set_trues_def enumerate_eq_zip upt_rec)

text \<open>
  C7. For every vector of p-values (numbers \<open>\<ge> 0\<close>) and every \<open>alpha\<close>, if Holm-Bonferroni
  marks index \<open>i\<close> significant, it marks significant every index \<open>j\<close> with
  \<open>p_values[j] \<le> p_values[i]\<close>.
\<close>

theorem holm_monotone:
  assumes nonneg: "\<forall>p\<in>set ps. 0 \<le> p"
    and i: "i < length ps" and j: "j < length ps"
    and sig: "fst (holm_bonferroni ps alpha) ! i"
    and le: "ps ! j \<le> ps ! i"
  shows "fst (holm_bonferroni ps alpha) ! j"
proof -
  let ?T = "corrected_pvals_tup ps" and ?n = "length ps"
  obtain a where a: "a < ?n" "fst (?T ! a) = i"
    using sorted_position_exists [OF i] by blast
  obtain b where b: "b < ?n" "fst (?T ! b) = j"
    using sorted_position_exists [OF j] by blast
  have upto_a: "\<forall>k\<le>a. snd (?T ! k) < alpha"
    using sig holm_significant_nth [OF a(1), of alpha] a(2) by simp
  have "\<forall>k\<le>b. snd (?T ! k) < alpha"
  proof (intro allI impI)
    fix k assume kb: "k \<le> b"
    then have k: "k < ?n" using b(1) by simp
    show "snd (?T ! k) < alpha"
    proof (cases "k \<le> a")
      case True
      with upto_a show ?thesis by blast
    next
      case False
      then have ak: "a \<le> k" by simp
      have "ps ! i \<le> ps ! fst (?T ! k)"
        using sorted_position_mono [OF ak k] a(2) by simp
      moreover have "ps ! fst (?T ! k) \<le> ps ! j"
        using sorted_position_mono [OF kb b(1)] b(2) by simp
      ultimately have eq: "ps ! fst (?T ! k) = ps ! i"
        using le by simp
      have q: "0 \<le> ps ! i" using nonneg i by simp
      have "snd (?T ! k) = ps ! i * real (?n - k)"
        using corrected_pvals_tup_nth(2) [OF k] eq by simp
      also have "\<dots> \<le> ps ! i * real (?n - a)"
        using q ak by (intro mult_left_mono) simp_all
      also have "\<dots> = snd (?T ! a)"
        using corrected_pvals_tup_nth(2) [OF a(1)] a(2) by simp
      also have "\<dots> < alpha" using upto_a by simp
      finally show ?thesis .
    qed
  qed
  then show ?thesis
    using holm_significant_nth [OF b(1), of alpha] b(2) by simp
qed

theorem holm_monotone_witness:
  "list_all (\<lambda>p. 0 \<le> p) [1/100, 1/25, 3/100, 1/200 :: real]
   \<and> (0::nat) < length [1/100, 1/25, 3/100, 1/200 :: real]
   \<and> (3::nat) < length [1/100, 1/25, 3/100, 1/200 :: real]
   \<and> fst (holm_bonferroni [1/100, 1/25, 3/100, 1/200] (1/20)) ! 0
   \<and> [1/100, 1/25, 3/100, 1/200 :: real] ! 3 \<le> [1/100, 1/25, 3/100, 1/200] ! 0
   \<and> fst (holm_bonferroni [1/100, 1/25, 3/100, 1/200] (1/20)) ! 3"
proof -
  have h1: "\<forall>p\<in>set [1/100, 1/25, 3/100, 1/200 :: real]. 0 \<le> p" by simp
  have h2: "(0::nat) < length [1/100, 1/25, 3/100, 1/200 :: real]" by simp
  have h3: "(3::nat) < length [1/100, 1/25, 3/100, 1/200 :: real]" by simp
  have h4: "fst (holm_bonferroni [1/100, 1/25, 3/100, 1/200] (1/20)) ! 0"
    by (simp add: example_holm)
  have h5: "[1/100, 1/25, 3/100, 1/200 :: real] ! 3 \<le> [1/100, 1/25, 3/100, 1/200] ! 0"
    by simp
  from holm_monotone [OF h1 h2 h3 h4 h5] h2 h3 h4 h5 show ?thesis by simp
qed

section \<open>Bonferroni and Sidak are elementwise\<close>

lemma sidak_denominator:
  assumes "alpha \<noteq> 0" "alpha \<le> 1" "n \<noteq> 0"
  shows "1 - (1 - alpha) powr (1 / real n) \<noteq> 0"
proof (cases "alpha = 1")
  case True
  then show ?thesis by simp
next
  case False
  with assms have "0 < 1 - alpha" "1 - alpha \<noteq> 1" by simp_all
  then have "(1 - alpha) powr (1 / real n) \<noteq> 1"
    using assms(3) by simp
  then show ?thesis by simp
qed

lemma sidak_correction_value:
  assumes "alpha \<noteq> 0" "alpha \<le> 1"
  shows "sidak_correction n alpha =
           Inr (if n = 0 then 1 else alpha / (1 - (1 - alpha) powr (1 / real n)))"
  using sidak_denominator [OF assms] by (simp add: sidak_correction_def)

text \<open>
  C8. For every p-value vector of length \<open>n\<close>, Bonferroni returns
  \<open>corrected[i] = p_values[i] * n\<close>; for every \<open>alpha \<le> 1\<close> other than 0, in particular in
  the documented range \<open>(0, 1)\<close>, Sidak returns \<open>corrected[i] = p_values[i] * alpha / (1 - (1 - alpha) ^ (1 / n))\<close>, the correction
  being 1 when \<open>n = 0\<close>; both vectors are as long as the input, and for both routines
  \<open>significant[i] = (corrected[i] < alpha)\<close> at every index.
\<close>

theorem bonferroni_sidak_elementwise:
  "length (fst (bonferroni ps alpha)) = length ps
   \<and> length (snd (bonferroni ps alpha)) = length ps
   \<and> (\<forall>i < length ps.
        snd (bonferroni ps alpha) ! i = ps ! i * real (length ps)
        \<and> fst (bonferroni ps alpha) ! i = (snd (bonferroni ps alpha) ! i < alpha))
   \<and> (alpha \<noteq> 0 \<and> alpha \<le> 1 \<longrightarrow>
        sidak_correction 0 alpha = Inr 1
        \<and> (\<exists>significant corrected.
              sidak ps alpha = Inr (significant, corrected)
              \<and> length significant = length ps \<and> length corrected = length ps
              \<and> (\<forall>i < length ps.
                    corrected ! i =
                      ps ! i * (alpha / (1 - (1 - alpha) powr (1 / real (length ps))))
                    \<and> significant ! i = (corrected ! i < alpha))))"
proof -
  have b: "length (fst (bonferroni ps alpha)) = length ps
     \<and> length (snd (bonferroni ps alpha)) = length ps
     \<and> (\<forall>i < length ps.
        snd (bonferroni ps alpha) ! i = ps ! i * real (length ps)
        \<and> fst (bonferroni ps alpha) ! i = (snd (bonferroni ps alpha) ! i < alpha))"
    by (simp add: bonferroni_def Let_def)
  have s: "sidak_correction 0 alpha = Inr 1
        \<and> (\<exists>significant corrected.
              sidak ps alpha = Inr (significant, corrected)
              \<and> length significant = length ps \<and> length corrected = length ps
              \<and> (\<forall>i < length ps.
                    corrected ! i =
                      ps ! i * (alpha / (1 - (1 - alpha) powr (1 / real (length ps))))
                    \<and> significant ! i = (corrected ! i < alpha)))"
    if a: "alpha \<noteq> 0" "alpha \<le> 1"
  proof (cases "length ps = 0")
    case True
    then show ?thesis
      by (simp add: sidak_def sidak_correction_value [OF a])
  next
    case False
    then show ?thesis
      by (simp add: sidak_def sidak_correction_value [OF a] Let_def)
  qed
  from b s show ?thesis by blast
qed

theorem bonferroni_sidak_elementwise_witness:
  "(1/2::real) \<noteq> 0 \<and> (1/2::real) \<le> 1 \<and> (1::nat) < length [1/10, 1/5 :: real]
   \<and> snd (bonferroni [1/10, 1/5] (1/2)) ! 1 = 2/5
   \<and> fst (bonferroni [1/10, 1/5] (1/2)) ! 1 = True
   \<and> sidak_correction 0 (1/2) = Inr 1
   \<and> (\<exists>significant corrected.
        sidak [1/10, 1/5] (1/2) = Inr (significant, corrected)
        \<and> corrected ! 1 = 1/5 * ((1/2) / (1 - (1 - 1/2) powr (1 / real (length [1/10, 1/5 :: real]))))
        \<and> significant ! 1 = (corrected ! 1 < 1/2))"
  using bonferroni_sidak_elementwise [of "[1/10, 1/5]" "1/2"] by auto

section \<open>The dispatcher\<close>

text \<open>
  C9. For every routine name other than \<open>holm_bonferroni\<close>, \<open>bonferroni\<close> and \<open>sidak\<close> the
  dispatcher fails at its assertion, before any routine is called and without a default;
  for each of the three names it returns what the routine of that name returns on the
  p-value vector.
\<close>

theorem test_corrected_dispatch:
  "(routine \<notin> {''holm_bonferroni'', ''bonferroni'', ''sidak''} \<longrightarrow>
      test_corrected ps alpha routine = Inl AssertionError)
   \<and> test_corrected ps alpha ''holm_bonferroni'' = Inr (holm_bonferroni ps alpha)
   \<and> test_corrected ps alpha ''bonferroni'' = Inr (bonferroni ps alpha)
   \<and> test_corrected ps alpha ''sidak'' = sidak ps alpha"
  by (simp add: test_corrected_def routines_def)

theorem test_corrected_dispatch_witness:
  "''holm'' \<notin> {''holm_bonferroni'', ''bonferroni'', ''sidak''}
   \<and> test_corrected [1/100, 1/25] (1/20) ''holm'' = Inl AssertionError"
  using test_corrected_dispatch [of "''holm''" "[1/100, 1/25]" "1/20"] by simp

section \<open>Ranks and the U statistics\<close>

lemma range_desc_count: "range_desc r (r - int c) = map (\<lambda>k. r - int k) [0..<c]"
  by (simp add: range_desc_def)

lemma sum_range_desc:
  "2 * sum_list (map (\<lambda>k. r - int k) [0..<c]) = 2 * int c * r - int c * (int c - 1)"
  by (induction c) (simp_all add: algebra_simps)

lemma tie_mean_value:
  assumes "0 < c"
  shows "real_of_int (sum_list (range_desc r (r - int c))) / real c =
           real_of_int r - (real c - 1) / 2"
proof -
  have "real_of_int (2 * sum_list (range_desc r (r - int c))) =
          real_of_int (2 * int c * r - int c * (int c - 1))"
    by (simp only: range_desc_count sum_range_desc)
  then have "2 * real_of_int (sum_list (range_desc r (r - int c))) =
          2 * real c * real_of_int r - real c * (real c - 1)"
    by simp
  then have "real_of_int (sum_list (range_desc r (r - int c))) =
          real c * (real_of_int r - (real c - 1) / 2)"
    by (simp add: field_simps)
  with assms show ?thesis by simp
qed

lemma fold_enumerate_other:
  "v \<notin> set xs \<Longrightarrow>
     fold (\<lambda>(i, value) ranks. ranks(value \<mapsto> PyInt (int i + 1))) (enumerate s xs) m v = m v"
  by (induction xs arbitrary: s m) simp_all

lemma fold_enumerate_last:
  assumes "v \<notin> set zs"
  shows "fold (\<lambda>(i, value) ranks. ranks(value \<mapsto> PyInt (int i + 1)))
           (enumerate s (ys @ v # zs)) m v = Some (PyInt (int (s + length ys) + 1))"
  using assms by (simp add: enumerate_append_eq fold_enumerate_other)

lemma enumerate_ranks_last:
  "v \<notin> set zs \<Longrightarrow> enumerate_ranks (ys @ v # zs) v = Some (PyInt (int (length ys) + 1))"
  unfolding enumerate_ranks_def using fold_enumerate_last [of v zs 0 ys] by simp

lemma enumerate_ranks_None: "v \<notin> set xs \<Longrightarrow> enumerate_ranks xs v = None"
  unfolding enumerate_ranks_def by (simp add: fold_enumerate_other)

lemma descending_split_count:
  fixes v :: "'a::linorder"
  assumes d: "rev (sort values) = ys @ v # zs" and v: "v \<notin> set zs"
  shows "length ys + 1 = length (filter (\<lambda>u. v \<le> u) values)"
proof -
  have "sorted (rev (ys @ v # zs))"
    using d [symmetric] by simp
  then have s: "sorted (rev zs @ v # rev ys)" by simp
  have ys: "\<forall>y\<in>set ys. v \<le> y"
    using s by (auto simp: sorted_append)
  have "\<forall>z\<in>set zs. z \<le> v"
    using s by (auto simp: sorted_append)
  with v have zs: "\<forall>z\<in>set zs. \<not> v \<le> z" by auto
  have "length (filter (\<lambda>u. v \<le> u) values) = length (filter (\<lambda>u. v \<le> u) (sort values))"
    by (simp add: filter_sort)
  also have "\<dots> = length (filter (\<lambda>u. v \<le> u) (rev (sort values)))"
    by (simp add: rev_filter [symmetric])
  also have "\<dots> = length (filter (\<lambda>u. v \<le> u) (ys @ v # zs))"
    by (simp only: d)
  also have "\<dots> = length ys + 1"
    using ys zs by simp
  finally show ?thesis by simp
qed

lemma enumerate_ranks_sorted:
  fixes v :: "'a::linorder"
  assumes "v \<in> set values"
  shows "enumerate_ranks (rev (sort values)) v =
           Some (PyInt (int (length (filter (\<lambda>u. v \<le> u) values))))"
proof -
  have "v \<in> set (rev (sort values))" using assms by simp
  then obtain ys zs where d: "rev (sort values) = ys @ v # zs" and v: "v \<notin> set zs"
    by (meson split_list_last)
  show ?thesis
    using enumerate_ranks_last [OF v, of ys] descending_split_count [OF d v]
    by (simp add: d)
qed

lemma average_ties_result:
  assumes "distinct (map fst its)"
    and "\<forall>(v, c)\<in>set its. \<exists>r. m v = Some (PyInt r)"
  shows "\<exists>m'. average_ties its m = Inr m'
           \<and> (\<forall>v. v \<notin> fst ` set its \<longrightarrow> m' v = m v)
           \<and> (\<forall>(v, c)\<in>set its. \<forall>r. m v = Some (PyInt r) \<longrightarrow>
                 m' v = Some (PyFloat (real_of_int (sum_list (range_desc r (r - int c))) / real c)))"
  using assms
proof (induction its arbitrary: m)
  case Nil
  then show ?case by simp
next
  case (Cons it rest)
  obtain v0 c0 where it: "it = (v0, c0)" by (cases it)
  from Cons.prems(2) it obtain r0 where r0: "m v0 = Some (PyInt r0)" by auto
  define m1 where
    "m1 = m(v0 \<mapsto> PyFloat (real_of_int (sum_list (range_desc r0 (r0 - int c0))) / real c0))"
  have step: "average_ties (it # rest) m = average_ties rest m1"
    by (simp add: it r0 m1_def)
  have fresh: "v0 \<notin> fst ` set rest"
    using Cons.prems(1) it by simp
  have d: "distinct (map fst rest)"
    using Cons.prems(1) by simp
  have ints: "\<forall>(v, c)\<in>set rest. \<exists>r. m1 v = Some (PyInt r)"
  proof (clarify)
    fix v c assume vc: "(v, c) \<in> set rest"
    then have "v \<noteq> v0" using fresh by force
    moreover from vc Cons.prems(2) obtain r where "m v = Some (PyInt r)" by auto
    ultimately show "\<exists>r. m1 v = Some (PyInt r)" by (simp add: m1_def)
  qed
  from Cons.IH [OF d ints] obtain m' where m': "average_ties rest m1 = Inr m'"
    and other: "\<forall>v. v \<notin> fst ` set rest \<longrightarrow> m' v = m1 v"
    and tied: "\<forall>(v, c)\<in>set rest. \<forall>r. m1 v = Some (PyInt r) \<longrightarrow>
                 m' v = Some (PyFloat (real_of_int (sum_list (range_desc r (r - int c))) / real c))"
    by blast
  have a: "\<forall>v. v \<notin> fst ` set (it # rest) \<longrightarrow> m' v = m v"
    using other by (simp add: it m1_def)
  have b: "\<forall>(v, c)\<in>set (it # rest). \<forall>r. m v = Some (PyInt r) \<longrightarrow>
             m' v = Some (PyFloat (real_of_int (sum_list (range_desc r (r - int c))) / real c))"
  proof (clarify)
    fix v c r assume vc: "(v, c) \<in> set (it # rest)" and r: "m v = Some (PyInt r)"
    show "m' v = Some (PyFloat (real_of_int (sum_list (range_desc r (r - int c))) / real c))"
    proof (cases "(v, c) = it")
      case True
      then have "v = v0" "c = c0" using it by simp_all
      moreover have "r = r0" using r r0 \<open>v = v0\<close> by simp
      moreover have "m' v0 = m1 v0" using other fresh by blast
      ultimately show ?thesis by (simp add: m1_def)
    next
      case False
      with vc have in_rest: "(v, c) \<in> set rest" by auto
      then have "v \<noteq> v0" using fresh by force
      then have "m1 v = Some (PyInt r)" using r by (simp add: m1_def)
      with tied in_rest show ?thesis by blast
    qed
  qed
  from step m' a b show ?case by simp
qed

lemma Counter_keys:
  "map fst (filter (\<lambda>(value, count). count > 1) (Counter values)) =
     filter (\<lambda>v. count_list values v > 1) (rev (remdups (rev values)))"
  by (simp add: Counter_def filter_map comp_def)

lemma Counter_ties:
  "set (filter (\<lambda>(value, count). count > 1) (Counter values)) =
     {(v, count_list values v) | v. v \<in> set values \<and> count_list values v > 1}"
  by (auto simp: Counter_def)

lemma rank_result:
  fixes "values" :: "'a::linorder list"
  shows "\<exists>ranks. rank values = Inr ranks
           \<and> (\<forall>v. v \<notin> set values \<longrightarrow> ranks v = None)
           \<and> (\<forall>v\<in>set values. \<exists>r. ranks v = Some r \<and> num_val r = mean_rank values v)"
proof -
  let ?its = "filter (\<lambda>(value, count). count > 1) (Counter values)"
  let ?m = "enumerate_ranks (rev (sort values))"
  let ?p = "\<lambda>v. length (filter (\<lambda>u. v \<le> u) values)"
  have d: "distinct (map fst ?its)"
    by (simp only: Counter_keys) simp
  have ints: "\<forall>(v, c)\<in>set ?its. \<exists>r. ?m v = Some (PyInt r)"
    unfolding Counter_ties by (auto simp: enumerate_ranks_sorted)
  from average_ties_result [OF d ints] obtain m' where m': "average_ties ?its ?m = Inr m'"
    and other: "\<forall>v. v \<notin> fst ` set ?its \<longrightarrow> m' v = ?m v"
    and tied: "\<forall>(v, c)\<in>set ?its. \<forall>r. ?m v = Some (PyInt r) \<longrightarrow>
                 m' v = Some (PyFloat (real_of_int (sum_list (range_desc r (r - int c))) / real c))"
    by blast
  have r: "rank values = Inr m'"
    using m' by (simp add: rank_def)
  have keys: "fst ` set ?its = {v \<in> set values. count_list values v > 1}"
    unfolding Counter_ties by force
  have none: "\<forall>v. v \<notin> set values \<longrightarrow> m' v = None"
    using other keys by (simp add: enumerate_ranks_None)
  have some: "\<forall>v\<in>set values. \<exists>r. m' v = Some r \<and> num_val r = mean_rank values v"
  proof
    fix v assume v: "v \<in> set values"
    then have pos: "0 < count_list values v"
      using count_list_0_iff [of "values" v] by simp
    show "\<exists>r. m' v = Some r \<and> num_val r = mean_rank values v"
    proof (cases "count_list values v > 1")
      case True
      with v have "(v, count_list values v) \<in> set ?its"
        unfolding Counter_ties by blast
      with tied enumerate_ranks_sorted [OF v]
      have "m' v = Some (PyFloat (real_of_int (sum_list (range_desc (int (?p v))
                 (int (?p v) - int (count_list values v)))) / real (count_list values v)))"
        by blast
      then show ?thesis
        by (simp add: tie_mean_value [OF pos] mean_rank_def)
    next
      case False
      with pos have one: "count_list values v = 1" by simp
      from False keys have "v \<notin> fst ` set ?its" by simp
      with other have "m' v = ?m v" by blast
      then show ?thesis
        by (simp add: enumerate_ranks_sorted [OF v] mean_rank_def one)
    qed
  qed
  from r none some show ?thesis by blast
qed

lemma lookup_ranks_result:
  assumes "\<forall>v\<in>set xs. \<exists>r. ranks v = Some r \<and> num_val r = f v"
  shows "lookup_ranks ranks xs = Inr (map f xs)"
  using assms by (induction xs) auto

lemma count_ge_swap:
  fixes xs ys :: "'a::linorder list"
  shows "(\<Sum>x\<leftarrow>xs. length (filter (\<lambda>u. x \<le> u) ys)) =
         (\<Sum>y\<leftarrow>ys. length (filter (\<lambda>u. u \<le> y) xs))"
proof (induction xs)
  case Nil
  then show ?case by simp
next
  case (Cons x xs)
  have "(\<Sum>y\<leftarrow>ys. length (filter (\<lambda>u. u \<le> y) (x # xs))) =
          (\<Sum>y\<leftarrow>ys. (if x \<le> y then 1 else 0) + length (filter (\<lambda>u. u \<le> y) xs))"
    by (intro arg_cong [where f = sum_list] map_cong) simp_all
  also have "\<dots> = (\<Sum>y\<leftarrow>ys. if x \<le> y then 1 else 0) +
                   (\<Sum>y\<leftarrow>ys. length (filter (\<lambda>u. u \<le> y) xs))"
    by (simp add: sum_list_addf)
  also have "(\<Sum>y\<leftarrow>ys. if x \<le> y then 1 else 0) = length (filter (\<lambda>u. x \<le> u) ys)"
    by (induction ys) simp_all
  finally show ?case using Cons.IH by simp
qed

lemma count_ge_le:
  fixes x :: "'a::linorder"
  shows "length (filter (\<lambda>u. x \<le> u) ys) + length (filter (\<lambda>u. u \<le> x) ys) =
         length ys + count_list ys x"
  by (induction ys) auto

lemma sum_positions:
  fixes xs :: "'a::linorder list"
  shows "2 * (\<Sum>x\<leftarrow>xs. length (filter (\<lambda>u. x \<le> u) xs)) =
         length xs * length xs + (\<Sum>x\<leftarrow>xs. count_list xs x)"
proof -
  let ?G = "\<Sum>x\<leftarrow>xs. length (filter (\<lambda>u. x \<le> u) xs)"
  let ?H = "\<Sum>x\<leftarrow>xs. length (filter (\<lambda>u. u \<le> x) xs)"
  have "?G + ?H =
          (\<Sum>x\<leftarrow>xs. length (filter (\<lambda>u. x \<le> u) xs) + length (filter (\<lambda>u. u \<le> x) xs))"
    by (simp add: sum_list_addf)
  also have "\<dots> = (\<Sum>x\<leftarrow>xs. length xs + count_list xs x)"
    by (simp only: count_ge_le)
  also have "\<dots> = length xs * length xs + (\<Sum>x\<leftarrow>xs. count_list xs x)"
    by (simp add: sum_list_addf sum_list_triv)
  finally show ?thesis
    using count_ge_swap [of xs xs] by simp
qed

lemma sum_mean_rank_split:
  "(\<Sum>x\<leftarrow>xs. mean_rank values x) =
     real (\<Sum>x\<leftarrow>xs. length (filter (\<lambda>u. x \<le> u) values))
     - (real (\<Sum>x\<leftarrow>xs. count_list values x) - real (length xs)) / 2"
  by (induction xs) (simp_all add: mean_rank_def field_simps)

lemma sum_mean_rank:
  fixes "values" :: "'a::linorder list"
  shows "(\<Sum>x\<leftarrow>values. mean_rank values x) =
           real (length values) * (real (length values) + 1) / 2"
proof -
  let ?G = "\<Sum>x\<leftarrow>values. length (filter (\<lambda>u. x \<le> u) values)"
  let ?C = "\<Sum>x\<leftarrow>values. count_list values x"
  let ?n = "length values"
  have "real (2 * ?G) = real (?n * ?n + ?C)"
    by (simp only: sum_positions)
  then have "2 * real ?G = real ?n * real ?n + real ?C"
    by simp
  then show ?thesis
    unfolding sum_mean_rank_split by (simp add: field_simps)
qed

lemma last_position_count:
  fixes "values" :: "'a::linorder list"
  assumes k: "k < length values"
    and last: "Suc k < length values \<longrightarrow> rev (sort values) ! Suc k \<noteq> rev (sort values) ! k"
  shows "length (filter (\<lambda>u. rev (sort values) ! k \<le> u) values) = k + 1"
proof -
  let ?d = "rev (sort values)"
  have kd: "k < length ?d" using k by simp
  have split: "?d = take k ?d @ ?d ! k # drop (Suc k) ?d"
    using kd by (rule id_take_nth_drop)
  have desc: "sorted (rev ?d)" by simp
  have "?d ! k \<notin> set (drop (Suc k) ?d)"
  proof
    assume "?d ! k \<in> set (drop (Suc k) ?d)"
    then obtain j where j: "j < length (drop (Suc k) ?d)" "drop (Suc k) ?d ! j = ?d ! k"
      unfolding in_set_conv_nth by blast
    then have jk: "Suc k + j < length ?d" and eq: "?d ! (Suc k + j) = ?d ! k"
      by simp_all
    have anti: "?d ! b \<le> ?d ! a" if "a \<le> b" "b < length ?d" for a b
      using that sorted_rev_nth_mono [OF desc, of a b] by simp
    have "?d ! (Suc k + j) \<le> ?d ! Suc k" using jk by (intro anti) simp_all
    moreover have "?d ! Suc k \<le> ?d ! k" using jk by (intro anti) simp_all
    ultimately have "?d ! Suc k = ?d ! k" using eq by simp
    with last jk show False by simp
  qed
  from descending_split_count [OF split this] show ?thesis
    using kd by simp
qed

lemma rank_positions:
  fixes "values" :: "'a::linorder list"
  assumes k: "k < length values"
    and last: "Suc k < length values \<longrightarrow> rev (sort values) ! Suc k \<noteq> rev (sort values) ! k"
  shows "mean_rank values (rev (sort values) ! k) =
           real (k + 1) - (real (count_list values (rev (sort values) ! k)) - 1) / 2"
  by (simp only: mean_rank_def last_position_count [OF k last])

lemma U_sum:
  assumes "sum_list ranks1 + sum_list ranks2 =
             real (length ranks1 + length ranks2) * (real (length ranks1 + length ranks2) + 1) / 2"
  shows "U1 ranks1 ranks2 + U2 ranks1 ranks2 = real_of_int (int (length ranks1) * int (length ranks2))"
  using assms by (simp add: U1_def U2_def Let_def field_simps)

lemma sample_ranks:
  fixes x1 x2 :: "'a::linorder list"
  shows "\<exists>rank_dict. rank (x1 @ x2) = Inr rank_dict
           \<and> lookup_ranks rank_dict x1 = Inr (map (mean_rank (x1 @ x2)) x1)
           \<and> lookup_ranks rank_dict x2 = Inr (map (mean_rank (x1 @ x2)) x2)"
proof -
  from rank_result [of "x1 @ x2"] obtain ranks where r: "rank (x1 @ x2) = Inr ranks"
    and some: "\<forall>v\<in>set (x1 @ x2). \<exists>r. ranks v = Some r \<and> num_val r = mean_rank (x1 @ x2) v"
    by blast
  have "lookup_ranks ranks x1 = Inr (map (mean_rank (x1 @ x2)) x1)"
    using some by (intro lookup_ranks_result) simp
  moreover have "lookup_ranks ranks x2 = Inr (map (mean_rank (x1 @ x2)) x2)"
    using some by (intro lookup_ranks_result) simp
  ultimately show ?thesis using r by blast
qed

lemma sample_ranks_U_sum:
  fixes x1 x2 :: "'a::linorder list"
  shows "U1 (map (mean_rank (x1 @ x2)) x1) (map (mean_rank (x1 @ x2)) x2)
         + U2 (map (mean_rank (x1 @ x2)) x1) (map (mean_rank (x1 @ x2)) x2)
         = real_of_int (int (length x1) * int (length x2))"
proof -
  have "sum_list (map (mean_rank (x1 @ x2)) x1) + sum_list (map (mean_rank (x1 @ x2)) x2) =
          (\<Sum>x\<leftarrow>x1 @ x2. mean_rank (x1 @ x2) x)"
    by simp
  also have "\<dots> = real (length (x1 @ x2)) * (real (length (x1 @ x2)) + 1) / 2"
    by (rule sum_mean_rank)
  finally show ?thesis
    using U_sum [of "map (mean_rank (x1 @ x2)) x1" "map (mean_rank (x1 @ x2)) x2"] by simp
qed

lemma calculate_z_no_assertion:
  "U1 ranks1 ranks2 + U2 ranks1 ranks2 = real_of_int (int (length ranks1) * int (length ranks2))
     \<Longrightarrow> calculate_z ranks1 ranks2 \<noteq> Inl AssertionError"
  by (simp add: calculate_z_def Let_def)

text \<open>
  C6. For every list of \<open>n\<close> values, \<open>rank\<close> returns a dictionary whose keys are exactly
  the values. A value occurring \<open>count\<close> times, whose last 1-based position in the
  descending order is \<open>p\<close>, gets the rank \<open>p - (count - 1) / 2\<close>, the arithmetic mean of the
  run \<open>p, p - 1, \<dots>, p - count + 1\<close>. The ranks looked up for all \<open>n\<close> occurrences sum to
  \<open>n (n + 1) / 2\<close>, ties or not, and the empty input gives the empty dictionary.
\<close>

theorem rank_mean_of_ties:
  fixes "values" :: "'a::linorder list"
  shows "(\<exists>ranks rs. rank values = Inr ranks \<and> dom ranks = set values
      \<and> (\<forall>k<length values.
            (Suc k < length values \<longrightarrow> rev (sort values) ! Suc k \<noteq> rev (sort values) ! k) \<longrightarrow>
            (\<exists>r. ranks (rev (sort values) ! k) = Some r
                \<and> num_val r =
                    real (k + 1) - (real (count_list values (rev (sort values) ! k)) - 1) / 2
                \<and> num_val r =
                    real_of_int (sum_list (range_desc (int (k + 1))
                       (int (k + 1) - int (count_list values (rev (sort values) ! k)))))
                    / real (count_list values (rev (sort values) ! k))))
      \<and> lookup_ranks ranks values = Inr rs
      \<and> sum_list rs = real (length values) * (real (length values) + 1) / 2)
    \<and> rank ([] :: 'a list) = Inr Map.empty"
proof (rule conjI)
  from rank_result [of "values"] obtain ranks where r: "rank values = Inr ranks"
    and none: "\<forall>v. v \<notin> set values \<longrightarrow> ranks v = None"
    and some: "\<forall>v\<in>set values. \<exists>r. ranks v = Some r \<and> num_val r = mean_rank values v"
    by blast
  have dom: "dom ranks = set values"
    using none some by (auto simp: dom_def)
  have look: "lookup_ranks ranks values = Inr (map (mean_rank values) values)"
    using some by (rule lookup_ranks_result)
  have total: "sum_list (map (mean_rank values) values) =
                 real (length values) * (real (length values) + 1) / 2"
    by (rule sum_mean_rank)
  have pos: "\<forall>k<length values.
            (Suc k < length values \<longrightarrow> rev (sort values) ! Suc k \<noteq> rev (sort values) ! k) \<longrightarrow>
            (\<exists>r. ranks (rev (sort values) ! k) = Some r
                \<and> num_val r =
                    real (k + 1) - (real (count_list values (rev (sort values) ! k)) - 1) / 2
                \<and> num_val r =
                    real_of_int (sum_list (range_desc (int (k + 1))
                       (int (k + 1) - int (count_list values (rev (sort values) ! k)))))
                    / real (count_list values (rev (sort values) ! k)))"
  proof (intro allI impI)
    fix k
    assume k: "k < length values"
      and last: "Suc k < length values \<longrightarrow> rev (sort values) ! Suc k \<noteq> rev (sort values) ! k"
    let ?v = "rev (sort values) ! k"
    have "?v \<in> set (rev (sort values))"
      using k by (intro nth_mem) simp
    then have v: "?v \<in> set values" by simp
    then have c: "0 < count_list values ?v"
      using count_list_0_iff [of "values" ?v] by simp
    from some v obtain r where rv: "ranks ?v = Some r" "num_val r = mean_rank values ?v"
      by blast
    have "num_val r = real (k + 1) - (real (count_list values ?v) - 1) / 2"
      using rv(2) rank_positions [OF k last] by simp
    moreover have "real (k + 1) - (real (count_list values ?v) - 1) / 2 =
        real_of_int (sum_list (range_desc (int (k + 1)) (int (k + 1) - int (count_list values ?v))))
        / real (count_list values ?v)"
      using tie_mean_value [OF c, of "int (k + 1)"] by simp
    ultimately show "\<exists>r. ranks ?v = Some r
                \<and> num_val r = real (k + 1) - (real (count_list values ?v) - 1) / 2
                \<and> num_val r =
                    real_of_int (sum_list (range_desc (int (k + 1))
                       (int (k + 1) - int (count_list values ?v))))
                    / real (count_list values ?v)"
      using rv(1) by simp
  qed
  show "\<exists>ranks rs. rank values = Inr ranks \<and> dom ranks = set values
      \<and> (\<forall>k<length values.
            (Suc k < length values \<longrightarrow> rev (sort values) ! Suc k \<noteq> rev (sort values) ! k) \<longrightarrow>
            (\<exists>r. ranks (rev (sort values) ! k) = Some r
                \<and> num_val r =
                    real (k + 1) - (real (count_list values (rev (sort values) ! k)) - 1) / 2
                \<and> num_val r =
                    real_of_int (sum_list (range_desc (int (k + 1))
                       (int (k + 1) - int (count_list values (rev (sort values) ! k)))))
                    / real (count_list values (rev (sort values) ! k))))
      \<and> lookup_ranks ranks values = Inr rs
      \<and> sum_list rs = real (length values) * (real (length values) + 1) / 2"
    apply (rule exI [of _ ranks])
    apply (rule exI [of _ "map (mean_rank values) values"])
    apply (intro conjI)
        apply (rule r)
       apply (rule dom)
      apply (rule pos)
     apply (rule look)
    apply (rule total)
    done
next
  show "rank ([] :: 'a list) = Inr Map.empty"
    by (simp add: rank_def Counter_def enumerate_ranks_def)
qed

theorem rank_mean_of_ties_witness:
  "(2::nat) < length [5, 5, 5, 4 :: int]
   \<and> rev (sort [5, 5, 5, 4 :: int]) ! Suc 2 \<noteq> rev (sort [5, 5, 5, 4 :: int]) ! 2
   \<and> (\<exists>ranks r. rank [5, 5, 5, 4 :: int] = Inr ranks \<and> ranks 5 = Some r \<and> num_val r = 2)"
proof -
  let ?xs = "[5, 5, 5, 4 :: int]"
  have k: "(2::nat) < length ?xs" by simp
  have d: "rev (sort ?xs) = [5, 5, 5, 4]" by simp
  have last': "rev (sort ?xs) ! Suc 2 \<noteq> rev (sort ?xs) ! 2"
    unfolding d by simp
  from rank_mean_of_ties [of ?xs] obtain ranks where
    r: "rank ?xs = Inr ranks"
    and pos: "\<forall>k<length ?xs.
            (Suc k < length ?xs \<longrightarrow> rev (sort ?xs) ! Suc k \<noteq> rev (sort ?xs) ! k) \<longrightarrow>
            (\<exists>r. ranks (rev (sort ?xs) ! k) = Some r
                \<and> num_val r =
                    real (k + 1) - (real (count_list ?xs (rev (sort ?xs) ! k)) - 1) / 2
                \<and> num_val r =
                    real_of_int (sum_list (range_desc (int (k + 1))
                       (int (k + 1) - int (count_list ?xs (rev (sort ?xs) ! k)))))
                    / real (count_list ?xs (rev (sort ?xs) ! k)))"
    by (elim conjE exE)
  from pos [rule_format, OF k last'] obtain r where "ranks (rev (sort ?xs) ! 2) = Some r"
    "num_val r = real (2 + 1) - (real (count_list ?xs (rev (sort ?xs) ! 2)) - 1) / 2"
    by (elim conjE exE)
  then have "ranks 5 = Some r" "num_val r = 2"
    unfolding d by simp_all
  with r have "\<exists>ranks r. rank ?xs = Inr ranks \<and> ranks 5 = Some r \<and> num_val r = 2"
    by blast
  with k last' show ?thesis by (intro conjI)
qed

text \<open>
  C5. For every pair of samples (non-empty or not), with the ranks that \<open>mannwhitneyu\<close> looks
  up in the dictionary \<open>rank\<close> builds over the pooled values, \<open>U1 + U2 = n1 * n2\<close>, so the
  assertion of \<open>calculate_z\<close> does not fire.
\<close>

theorem U1_plus_U2:
  fixes x1 x2 :: "'a::linorder list"
  shows "\<exists>rank_dict x1_ranks x2_ranks.
           rank (x1 @ x2) = Inr rank_dict
           \<and> lookup_ranks rank_dict x1 = Inr x1_ranks
           \<and> lookup_ranks rank_dict x2 = Inr x2_ranks
           \<and> U1 x1_ranks x2_ranks + U2 x1_ranks x2_ranks = real (length x1 * length x2)
           \<and> calculate_z x1_ranks x2_ranks \<noteq> Inl AssertionError
           \<and> mannwhitneyu x1 x2 p \<noteq> Inl AssertionError"
proof -
  let ?r1 = "map (mean_rank (x1 @ x2)) x1" and ?r2 = "map (mean_rank (x1 @ x2)) x2"
  from sample_ranks [of x1 x2] obtain rank_dict where r: "rank (x1 @ x2) = Inr rank_dict"
    and l1: "lookup_ranks rank_dict x1 = Inr ?r1"
    and l2: "lookup_ranks rank_dict x2 = Inr ?r2"
    by blast
  have u: "U1 ?r1 ?r2 + U2 ?r1 ?r2 = real_of_int (int (length ?r1) * int (length ?r2))"
    using sample_ranks_U_sum [of x1 x2] by simp
  then have u': "U1 ?r1 ?r2 + U2 ?r1 ?r2 = real (length x1 * length x2)"
    by simp
  have z: "calculate_z ?r1 ?r2 \<noteq> Inl AssertionError"
    using u by (rule calculate_z_no_assertion)
  have "mannwhitneyu x1 x2 p \<noteq> Inl AssertionError"
    using z by (auto simp: mannwhitneyu_def r l1 l2 Let_def split: sum.splits)
  with r l1 l2 u' z show ?thesis by blast
qed

section \<open>The error function and the normal distribution function\<close>

lemma erf_coeffs_bound: "norm (erf_coeffs n * y ^ n) \<le> inverse (fact n) * \<bar>y\<bar> ^ n"
proof -
  have "\<bar>erf_coeffs n\<bar> = inverse (fact n) * inverse (real (2 * n + 1))"
    by (simp add: erf_coeffs_def abs_mult power_abs divide_inverse)
  also have "\<dots> \<le> inverse (fact n) * 1"
    by (intro mult_left_mono) (simp_all add: inverse_le_1_iff)
  finally have "\<bar>erf_coeffs n\<bar> \<le> inverse (fact n)" by simp
  then have "\<bar>erf_coeffs n\<bar> * \<bar>y\<bar> ^ n \<le> inverse (fact n) * \<bar>y\<bar> ^ n"
    by (intro mult_right_mono) simp_all
  then show ?thesis by (simp add: abs_mult power_abs)
qed

lemma summable_erf_coeffs: "summable (\<lambda>n. erf_coeffs n * y ^ n)"
  by (rule summable_comparison_test' [OF summable_exp [of "\<bar>y\<bar>"], of 0])
    (rule erf_coeffs_bound)

lemma erf_series: "erf x = 2 / sqrt pi * (x * (\<Sum>n. erf_coeffs n * (x\<^sup>2) ^ n))"
proof -
  have e: "erf_coeffs n * x ^ (2 * n + 1) = x * (erf_coeffs n * (x\<^sup>2) ^ n)" for n
    using power_mult [of x 2 n] by simp
  have "(\<Sum>n. erf_coeffs n * x ^ (2 * n + 1)) = (\<Sum>n. x * (erf_coeffs n * (x\<^sup>2) ^ n))"
    by (simp only: e)
  also have "\<dots> = x * (\<Sum>n. erf_coeffs n * (x\<^sup>2) ^ n)"
    by (rule suminf_mult) (rule summable_erf_coeffs)
  finally show ?thesis by (simp add: erf_def)
qed

lemma erf_0: "erf 0 = 0"
  by (simp add: erf_series)

lemma DERIV_erf_coeffs:
  "DERIV (\<lambda>y. \<Sum>n. erf_coeffs n * y ^ n) y :> (\<Sum>n. diffs erf_coeffs n * y ^ n)"
  by (rule termdiffs_strong_converges_everywhere) (rule summable_erf_coeffs)

lemma erf_coeffs_exp:
  "(\<Sum>n. erf_coeffs n * y ^ n) + 2 * y * (\<Sum>n. diffs erf_coeffs n * y ^ n) = exp (- y)"
proof -
  have d: "summable (\<lambda>n. diffs erf_coeffs n * y ^ n)"
    by (rule termdiff_converges_all) (rule summable_erf_coeffs)
  have "(\<lambda>n. real n * erf_coeffs n * y ^ (n - Suc 0)) sums (\<Sum>n. diffs erf_coeffs n * y ^ n)"
    using d by (rule diffs_equiv)
  then have "(\<lambda>n. 2 * y * (real n * erf_coeffs n * y ^ (n - Suc 0))) sums
               (2 * y * (\<Sum>n. diffs erf_coeffs n * y ^ n))"
    by (rule sums_mult)
  moreover have "2 * y * (real n * erf_coeffs n * y ^ (n - Suc 0)) =
                   2 * real n * erf_coeffs n * y ^ n" for n
    by (cases n) simp_all
  ultimately have "(\<lambda>n. 2 * real n * erf_coeffs n * y ^ n) sums
               (2 * y * (\<Sum>n. diffs erf_coeffs n * y ^ n))"
    by simp
  moreover have "(\<lambda>n. erf_coeffs n * y ^ n) sums (\<Sum>n. erf_coeffs n * y ^ n)"
    using summable_erf_coeffs by (rule summable_sums)
  ultimately have "(\<lambda>n. erf_coeffs n * y ^ n + 2 * real n * erf_coeffs n * y ^ n) sums
      ((\<Sum>n. erf_coeffs n * y ^ n) + 2 * y * (\<Sum>n. diffs erf_coeffs n * y ^ n))"
    by (intro sums_add)
  moreover have "erf_coeffs n * y ^ n + 2 * real n * erf_coeffs n * y ^ n =
                   (- y) ^ n /\<^sub>R fact n" for n
  proof -
    have "erf_coeffs n * y ^ n + 2 * real n * erf_coeffs n * y ^ n =
            (real (2 * n + 1) * erf_coeffs n) * y ^ n"
      by (simp add: algebra_simps)
    also have "real (2 * n + 1) * erf_coeffs n = (- 1) ^ n / fact n"
      by (simp add: erf_coeffs_def)
    also have "(- 1) ^ n / fact n * y ^ n = (- y) ^ n /\<^sub>R fact n"
      by (simp add: power_minus [of y] divide_inverse mult_ac)
    finally show ?thesis .
  qed
  ultimately have "(\<lambda>n. (- y) ^ n /\<^sub>R fact n) sums
      ((\<Sum>n. erf_coeffs n * y ^ n) + 2 * y * (\<Sum>n. diffs erf_coeffs n * y ^ n))"
    by simp
  then show ?thesis
    using exp_converges [of "- y"] by (rule sums_unique2)
qed

lemma DERIV_erf: "DERIV erf x :> 2 / sqrt pi * exp (- x\<^sup>2)"
proof -
  let ?g = "\<lambda>y. \<Sum>n. erf_coeffs n * y ^ n"
  let ?g' = "\<lambda>y. \<Sum>n. diffs erf_coeffs n * y ^ n"
  have "DERIV (\<lambda>x. ?g (x\<^sup>2)) x :> ?g' (x\<^sup>2) * (2 * x)"
    by (rule DERIV_chain' [where f = "\<lambda>x. x\<^sup>2" and g = ?g, OF _ DERIV_erf_coeffs])
      (auto intro!: derivative_eq_intros)
  then have "DERIV (\<lambda>x. x * ?g (x\<^sup>2)) x :> x * (?g' (x\<^sup>2) * (2 * x)) + 1 * ?g (x\<^sup>2)"
    by (rule DERIV_mult' [OF DERIV_ident])
  then have d: "DERIV (\<lambda>x. 2 / sqrt pi * (x * ?g (x\<^sup>2))) x :>
               2 / sqrt pi * (x * (?g' (x\<^sup>2) * (2 * x)) + 1 * ?g (x\<^sup>2))"
    by (rule DERIV_cmult)
  have eq: "x * (?g' (x\<^sup>2) * (2 * x)) + 1 * ?g (x\<^sup>2) = exp (- x\<^sup>2)"
    using erf_coeffs_exp [of "x\<^sup>2"] by (simp add: power2_eq_square mult_ac)
  have f: "erf = (\<lambda>x. 2 / sqrt pi * (x * ?g (x\<^sup>2)))"
    by (rule ext) (rule erf_series)
  from d show ?thesis
    unfolding eq f .
qed

lemma erf_nonpos:
  assumes "x \<le> 0"
  shows "erf x \<le> 0"
proof (cases "x = 0")
  case True
  then show ?thesis by (simp add: erf_0)
next
  case False
  with assms have "x < 0" by simp
  then have "erf x < erf 0"
  proof (rule DERIV_pos_imp_increasing)
    fix t :: real
    have "DERIV erf t :> 2 / sqrt pi * exp (- t\<^sup>2)" by (rule DERIV_erf)
    moreover have "0 < 2 / sqrt pi * exp (- t\<^sup>2)" by simp
    ultimately show "\<exists>y. DERIV erf t :> y \<and> 0 < y" by blast
  qed
  then show ?thesis by (simp add: erf_0)
qed

lemma z_to_p_0: "z_to_p 0 = 1 / 2"
  by (simp add: z_to_p_def erf_0)

lemma z_to_p_le_half: "z \<le> 0 \<Longrightarrow> z_to_p z \<le> 1 / 2"
proof -
  assume "z \<le> 0"
  then have "z / sqrt 2 \<le> 0" by (simp add: divide_nonpos_pos)
  then have "erf (z / sqrt 2) \<le> 0" by (rule erf_nonpos)
  then show ?thesis by (simp add: z_to_p_def)
qed

section \<open>The tie-corrected standard deviation\<close>

lemma Counter_counts:
  "map snd (Counter rs) = map (count_list rs) (rev (remdups (rev rs)))"
  by (simp add: Counter_def comp_def)

lemma Counter_counts_pos: "\<forall>c\<in>set (map snd (Counter rs)). 1 \<le> c"
proof
  fix c assume "c \<in> set (map snd (Counter rs))"
  then obtain v where "v \<in> set rs" "c = count_list rs v"
    unfolding Counter_counts by auto
  then show "1 \<le> c"
    using count_list_0_iff [of rs v] by simp
qed

lemma Counter_counts_sum: "sum_list (map snd (Counter rs)) = length rs"
proof -
  have "sum_list (map (count_list rs) (rev (remdups (rev rs)))) =
          sum (count_list rs) (set (rev (remdups (rev rs))))"
    by (rule sum_list_distinct_conv_sum_set) simp
  also have "\<dots> = sum (count_list rs) (set rs)" by simp
  also have "\<dots> = length rs" by (rule sum_count_set) simp_all
  finally show ?thesis by (simp only: Counter_counts)
qed

lemma Counter_counts_length: "length (map snd (Counter rs)) = card (set rs)"
proof -
  have "card (set (rev (remdups (rev rs)))) = length (rev (remdups (rev rs)))"
    by (rule distinct_card) simp
  then show ?thesis by (simp add: Counter_def)
qed

lemma sigma_filter:
  "\<forall>c\<in>set cs. 1 \<le> c \<Longrightarrow>
     sum_list (map (\<lambda>value. real_of_int (int value ^ 3 - int value) / 12)
       (filter (\<lambda>value. value > 1) cs)) =
     real_of_int (\<Sum>c\<leftarrow>cs. int c ^ 3 - int c) / 12"
proof (induction cs)
  case Nil
  then show ?case by simp
next
  case (Cons c cs)
  show ?case
  proof (cases "c > 1")
    case True
    with Cons show ?thesis by (simp add: add_divide_distrib)
  next
    case False
    with Cons.prems have "c = 1" by simp
    with Cons show ?thesis by simp
  qed
qed

lemma cube_expand:
  fixes a b :: int
  shows "(a + b) ^ 3 - (a + b) = (a ^ 3 - a) + (b ^ 3 - b) + 3 * a * b * (a + b)"
  by (simp add: power3_eq_cube algebra_simps)

lemma cube_sum_step:
  assumes "(\<Sum>c\<leftarrow>cs. int c ^ 3 - int c) \<le> int (sum_list cs) ^ 3 - int (sum_list cs)"
  shows "(\<Sum>c\<leftarrow>c # cs. int c ^ 3 - int c) + 3 * int c * int (sum_list cs) * (int c + int (sum_list cs))
           \<le> int (sum_list (c # cs)) ^ 3 - int (sum_list (c # cs))"
proof -
  define t where "t = 3 * int c * int (sum_list cs) * (int c + int (sum_list cs))"
  have "int (sum_list (c # cs)) ^ 3 - int (sum_list (c # cs)) =
          (int c + int (sum_list cs)) ^ 3 - (int c + int (sum_list cs))"
    by simp
  also have "\<dots> = (int c ^ 3 - int c) + (int (sum_list cs) ^ 3 - int (sum_list cs)) + t"
    unfolding t_def by (rule cube_expand)
  finally have e: "int (sum_list (c # cs)) ^ 3 - int (sum_list (c # cs)) =
          (int c ^ 3 - int c) + (int (sum_list cs) ^ 3 - int (sum_list cs)) + t" .
  have "(\<Sum>c\<leftarrow>c # cs. int c ^ 3 - int c) = (int c ^ 3 - int c) + (\<Sum>c\<leftarrow>cs. int c ^ 3 - int c)"
    by simp
  with assms e show ?thesis
    unfolding t_def [symmetric] by linarith
qed

lemma cube_sum_le:
  "(\<Sum>c\<leftarrow>cs. int c ^ 3 - int c) \<le> int (sum_list cs) ^ 3 - int (sum_list cs)"
proof (induction cs)
  case Nil
  then show ?case by simp
next
  case (Cons c cs)
  have "0 \<le> 3 * int c * int (sum_list cs) * (int c + int (sum_list cs))" by simp
  with cube_sum_step [OF Cons.IH, of c] show ?case by linarith
qed

lemma cube_sum_less:
  assumes "\<forall>c\<in>set cs. 1 \<le> c" and "2 \<le> length cs"
  shows "(\<Sum>c\<leftarrow>cs. int c ^ 3 - int c) < int (sum_list cs) ^ 3 - int (sum_list cs)"
proof -
  from assms(2) obtain c rest where cs: "cs = c # rest"
    by (cases cs) auto
  with assms(2) obtain d rest' where rest': "rest = d # rest'"
    by (cases rest) auto
  have c: "1 \<le> c" and d: "1 \<le> d"
    using assms(1) by (simp_all add: cs rest')
  have s: "1 \<le> sum_list rest" using d by (simp add: rest')
  have "0 < int c * int (sum_list rest)"
    using c s by simp
  then have "0 < 3 * int c * int (sum_list rest) * (int c + int (sum_list rest))"
    using c by simp
  with cube_sum_step [OF cube_sum_le [of rest], of c] show ?thesis
    unfolding cs by linarith
qed

lemma sigma_term_value:
  "sigma_term ranks1 ranks2 =
     real_of_int (\<Sum>c\<leftarrow>map snd (Counter (ranks1 @ ranks2)). int c ^ 3 - int c) / 12"
  unfolding sigma_term_def Let_def by (rule sigma_filter) (rule Counter_counts_pos)

lemma sigma_term_le:
  "sigma_term ranks1 ranks2 \<le>
     real_of_int ((int (length ranks1) + int (length ranks2)) ^ 3
        - (int (length ranks1) + int (length ranks2))) / 12"
proof -
  let ?cs = "map snd (Counter (ranks1 @ ranks2))"
  have "(\<Sum>c\<leftarrow>?cs. int c ^ 3 - int c) \<le> int (sum_list ?cs) ^ 3 - int (sum_list ?cs)"
    by (rule cube_sum_le)
  also have "sum_list ?cs = length ranks1 + length ranks2"
    by (simp only: Counter_counts_sum) simp
  finally have "real_of_int (\<Sum>c\<leftarrow>?cs. int c ^ 3 - int c) \<le>
      real_of_int (int (length ranks1 + length ranks2) ^ 3 - int (length ranks1 + length ranks2))"
    by (simp only: of_int_le_iff)
  then show ?thesis
    by (simp add: sigma_term_value divide_right_mono)
qed

lemma sigma_term_less:
  assumes "a \<in> set (ranks1 @ ranks2)" "b \<in> set (ranks1 @ ranks2)" "a \<noteq> b"
  shows "sigma_term ranks1 ranks2 <
     real_of_int ((int (length ranks1) + int (length ranks2)) ^ 3
        - (int (length ranks1) + int (length ranks2))) / 12"
proof -
  let ?cs = "map snd (Counter (ranks1 @ ranks2))"
  have "card {a, b} \<le> card (set (ranks1 @ ranks2))"
    using assms(1,2) by (intro card_mono) simp_all
  then have two: "2 \<le> length ?cs"
    using assms(3) by (simp only: Counter_counts_length) simp
  have "(\<Sum>c\<leftarrow>?cs. int c ^ 3 - int c) < int (sum_list ?cs) ^ 3 - int (sum_list ?cs)"
    using Counter_counts_pos two by (rule cube_sum_less)
  also have "sum_list ?cs = length ranks1 + length ranks2"
    by (simp only: Counter_counts_sum) simp
  finally have "real_of_int (\<Sum>c\<leftarrow>?cs. int c ^ 3 - int c) <
      real_of_int (int (length ranks1 + length ranks2) ^ 3 - int (length ranks1 + length ranks2))"
    by (simp only: of_int_less_iff)
  then show ?thesis
    by (simp add: sigma_term_value divide_strict_right_mono)
qed

section \<open>The rank-sum test\<close>

lemma no_value_error:
  "\<not> (real_of_int (int (length ranks1) * int (length ranks2))
        / real_of_int ((int (length ranks1) + int (length ranks2))
                        * (int (length ranks1) + int (length ranks2) - 1)) < 0
      \<or> real_of_int ((int (length ranks1) + int (length ranks2)) ^ 3
                        - (int (length ranks1) + int (length ranks2))) / 12
          - sigma_term ranks1 ranks2 < 0)"
proof -
  let ?n = "int (length ranks1) + int (length ranks2)"
  have "0 \<le> ?n * (?n - 1)"
    by (cases "?n = 0") simp_all
  then have "0 \<le> real_of_int (?n * (?n - 1))"
    by (simp only: of_int_0_le_iff)
  moreover have "0 \<le> real_of_int (int (length ranks1) * int (length ranks2))"
    by simp
  ultimately have "0 \<le> real_of_int (int (length ranks1) * int (length ranks2))
                   / real_of_int (?n * (?n - 1))"
    by (rule divide_nonneg_nonneg [rotated])
  with sigma_term_le [of ranks1 ranks2] show ?thesis by simp
qed

lemma calculate_z_value:
  assumes "U1 ranks1 ranks2 + U2 ranks1 ranks2 =
             real_of_int (int (length ranks1) * int (length ranks2))"
  shows "calculate_z ranks1 ranks2 =
     (if (int (length ranks1) + int (length ranks2))
           * (int (length ranks1) + int (length ranks2) - 1) = 0
         \<or> std ranks1 ranks2 = 0
      then Inl ZeroDivisionError
      else Inr ((min (U1 ranks1 ranks2) (U2 ranks1 ranks2)
                  - real_of_int (int (length ranks1) * int (length ranks2)) / 2)
                / std ranks1 ranks2))"
  using assms no_value_error [of ranks1 ranks2]
  by (simp add: calculate_z_def Let_def)

lemma mannwhitneyu_value:
  fixes x1 x2 :: "'a::linorder list"
  shows "mannwhitneyu x1 x2 p =
     (case calculate_z (map (mean_rank (x1 @ x2)) x1) (map (mean_rank (x1 @ x2)) x2) of
        Inl e \<Rightarrow> Inl e
      | Inr z \<Rightarrow> Inr (z_to_p z < p / 2, z_to_p z))"
proof -
  from sample_ranks [of x1 x2] obtain rank_dict where "rank (x1 @ x2) = Inr rank_dict"
    "lookup_ranks rank_dict x1 = Inr (map (mean_rank (x1 @ x2)) x1)"
    "lookup_ranks rank_dict x2 = Inr (map (mean_rank (x1 @ x2)) x2)"
    by blast
  then show ?thesis
    by (simp add: mannwhitneyu_def Let_def split: sum.splits)
qed

lemma std_empty: "ranks1 = [] \<or> ranks2 = [] \<Longrightarrow> std ranks1 ranks2 = 0"
  by (auto simp: std_def Let_def)

lemma std_pos:
  assumes "ranks1 \<noteq> []" "ranks2 \<noteq> []"
    and "a \<in> set (ranks1 @ ranks2)" "b \<in> set (ranks1 @ ranks2)" "a \<noteq> b"
  shows "0 < std ranks1 ranks2"
proof -
  let ?n1 = "int (length ranks1)" and ?n2 = "int (length ranks2)"
  have n1: "0 < ?n1" and n2: "0 < ?n2"
    using assms(1,2) by simp_all
  have "0 < ?n1 * ?n2"
    using n1 n2 by (rule mult_pos_pos)
  moreover have "0 < ?n1 + ?n2" "0 < ?n1 + ?n2 - 1"
    using n1 n2 by linarith+
  then have "0 < (?n1 + ?n2) * (?n1 + ?n2 - 1)"
    by (rule mult_pos_pos)
  ultimately have v1: "0 < real_of_int (?n1 * ?n2) / real_of_int ((?n1 + ?n2) * (?n1 + ?n2 - 1))"
    by (intro divide_pos_pos) (simp_all only: of_int_0_less_iff)
  have v2: "0 < real_of_int ((?n1 + ?n2) ^ 3 - (?n1 + ?n2)) / 12 - sigma_term ranks1 ranks2"
    using sigma_term_less [OF assms(3-5)] by simp
  show ?thesis
    unfolding std_def Let_def using v1 v2 by (intro mult_pos_pos) simp_all
qed

lemma calculate_z_nonpos:
  assumes "calculate_z ranks1 ranks2 = Inr z"
  shows "z \<le> 0"
proof -
  let ?n1 = "int (length ranks1)" and ?n2 = "int (length ranks2)"
  let ?mean = "real_of_int (?n1 * ?n2) / 2"
  from assms have u: "U1 ranks1 ranks2 + U2 ranks1 ranks2 = real_of_int (?n1 * ?n2)"
    by (simp add: calculate_z_def Let_def split: if_splits)
  from assms have v: "0 \<le> real_of_int (?n1 * ?n2)
                           / real_of_int ((?n1 + ?n2) * (?n1 + ?n2 - 1))"
      "0 \<le> real_of_int ((?n1 + ?n2) ^ 3 - (?n1 + ?n2)) / 12 - sigma_term ranks1 ranks2"
    by (simp_all add: calculate_z_def Let_def split: if_splits)
  from assms have s: "std ranks1 ranks2 \<noteq> 0"
    and z: "z = (min (U1 ranks1 ranks2) (U2 ranks1 ranks2) - ?mean) / std ranks1 ranks2"
    by (simp_all add: calculate_z_def Let_def split: if_splits)
  have "0 \<le> std ranks1 ranks2"
    unfolding std_def Let_def using v by (intro mult_nonneg_nonneg) simp_all
  with s have pos: "0 < std ranks1 ranks2" by simp
  have "min (U1 ranks1 ranks2) (U2 ranks1 ranks2) \<le> ?mean"
    using u by (simp add: min_def)
  then show ?thesis
    unfolding z using pos by (simp add: divide_le_0_iff)
qed

lemma count_ge_strict:
  fixes u v :: "'a::linorder"
  assumes "u < v"
  shows "length (filter (\<lambda>w. v \<le> w) xs) + count_list xs u \<le> length (filter (\<lambda>w. u \<le> w) xs)"
  using assms by (induction xs) auto

lemma mean_rank_antitone:
  fixes u v :: "'a::linorder"
  assumes "u < v" "v \<in> set xs"
  shows "mean_rank xs v < mean_rank xs u"
proof -
  have c: "1 \<le> real (count_list xs v)"
    using assms(2) count_list_0_iff [of xs v] by (simp add: Suc_leI)
  have "real (length (filter (\<lambda>w. v \<le> w) xs) + count_list xs u) \<le>
          real (length (filter (\<lambda>w. u \<le> w) xs))"
    using count_ge_strict [OF assms(1), of xs] by (simp only: of_nat_le_iff)
  then have "real (length (filter (\<lambda>w. v \<le> w) xs)) + real (count_list xs u) \<le>
          real (length (filter (\<lambda>w. u \<le> w) xs))"
    by simp
  with c show ?thesis
    unfolding mean_rank_def by (simp add: field_simps)
qed

lemma distinct_values_distinct_ranks:
  fixes u v :: "'a::linorder"
  assumes "u \<in> set xs" "v \<in> set xs" "u \<noteq> v"
  shows "mean_rank xs u \<noteq> mean_rank xs v"
  using assms mean_rank_antitone [of u v xs] mean_rank_antitone [of v u xs]
  by (cases u v rule: linorder_cases) auto

lemma Counter_constant:
  assumes "rs \<noteq> []" "\<forall>b\<in>set rs. b = a"
  shows "map snd (Counter rs) = [length rs]"
proof -
  let ?ks = "rev (remdups (rev rs))"
  have set: "set ?ks = {a}"
    using assms by (cases rs) auto
  have d: "distinct ?ks" by simp
  have ks: "?ks = [a]"
  proof (cases ?ks)
    case Nil
    with set show ?thesis by simp
  next
    case (Cons k ks')
    with set have k: "k = a" and sub: "set ks' \<subseteq> {a}" by auto
    from d Cons k have "a \<notin> set ks'" by simp
    with sub have "ks' = []" by (cases ks') auto
    with Cons k show ?thesis by simp
  qed
  have "count_list rs a = length rs"
    using assms(2) by (induction rs) simp_all
  then show ?thesis
    by (simp only: Counter_counts ks) simp
qed

lemma std_tied:
  assumes "\<forall>a\<in>set (ranks1 @ ranks2). \<forall>b\<in>set (ranks1 @ ranks2). a = b"
  shows "std ranks1 ranks2 = 0"
proof (cases "ranks1 @ ranks2 = []")
  case True
  then show ?thesis by (simp add: std_empty)
next
  case False
  then obtain a where a: "a \<in> set (ranks1 @ ranks2)"
    by (cases "ranks1 @ ranks2") auto
  with assms have "\<forall>b\<in>set (ranks1 @ ranks2). b = a" by blast
  from Counter_constant [OF False this]
  have "sigma_term ranks1 ranks2 =
          real_of_int (int (length (ranks1 @ ranks2)) ^ 3 - int (length (ranks1 @ ranks2))) / 12"
    by (simp add: sigma_term_value)
  then show ?thesis
    by (simp add: std_def Let_def)
qed

lemma mannwhitneyu_degenerate:
  fixes x1 x2 :: "'a::linorder list"
  assumes "x1 = [] \<or> x2 = [] \<or> length x1 + length x2 \<le> 1
           \<or> std (map (mean_rank (x1 @ x2)) x1) (map (mean_rank (x1 @ x2)) x2) = 0"
  shows "mannwhitneyu x1 x2 p = Inl ZeroDivisionError"
proof -
  let ?r1 = "map (mean_rank (x1 @ x2)) x1" and ?r2 = "map (mean_rank (x1 @ x2)) x2"
  have u: "U1 ?r1 ?r2 + U2 ?r1 ?r2 = real_of_int (int (length ?r1) * int (length ?r2))"
    using sample_ranks_U_sum [of x1 x2] by simp
  have "length x1 + length x2 \<le> 1 \<Longrightarrow> x1 = [] \<or> x2 = []"
    by (cases x1; cases x2) simp_all
  with assms have "x1 = [] \<or> x2 = [] \<or> std ?r1 ?r2 = 0" by blast
  then have "std ?r1 ?r2 = 0"
    using std_empty [of ?r1 ?r2] by auto
  then have "calculate_z ?r1 ?r2 = Inl ZeroDivisionError"
    by (simp add: calculate_z_value [OF u])
  then show ?thesis
    by (simp add: mannwhitneyu_value)
qed

lemma mannwhitneyu_tied:
  fixes x1 x2 :: "'a::linorder list"
  assumes "\<forall>u\<in>set (x1 @ x2). \<forall>v\<in>set (x1 @ x2). u = v"
  shows "mannwhitneyu x1 x2 p = Inl ZeroDivisionError"
proof -
  let ?r1 = "map (mean_rank (x1 @ x2)) x1" and ?r2 = "map (mean_rank (x1 @ x2)) x2"
  have "?r1 @ ?r2 = map (mean_rank (x1 @ x2)) (x1 @ x2)" by simp
  then have "set (?r1 @ ?r2) = mean_rank (x1 @ x2) ` set (x1 @ x2)"
    by (simp only: set_map)
  then have "\<forall>a\<in>set (?r1 @ ?r2). \<forall>b\<in>set (?r1 @ ?r2). a = b"
    using assms by (metis imageE)
  then have "std ?r1 ?r2 = 0" by (rule std_tied)
  then show ?thesis by (simp add: mannwhitneyu_degenerate)
qed

lemma mannwhitneyu_only_error:
  fixes x1 x2 :: "'a::linorder list"
  assumes "mannwhitneyu x1 x2 p = Inl e"
  shows "e = ZeroDivisionError"
proof -
  let ?r1 = "map (mean_rank (x1 @ x2)) x1" and ?r2 = "map (mean_rank (x1 @ x2)) x2"
  have u: "U1 ?r1 ?r2 + U2 ?r1 ?r2 = real_of_int (int (length ?r1) * int (length ?r2))"
    using sample_ranks_U_sum [of x1 x2] by simp
  from assms show ?thesis
    by (simp add: mannwhitneyu_value calculate_z_value [OF u] split: if_splits)
qed

lemma mannwhitneyu_defined:
  fixes x1 x2 :: "'a::linorder list"
  assumes "x1 \<noteq> []" "x2 \<noteq> []"
    and "u \<in> set (x1 @ x2)" "v \<in> set (x1 @ x2)" "u \<noteq> v"
  shows "0 < std (map (mean_rank (x1 @ x2)) x1) (map (mean_rank (x1 @ x2)) x2)"
    and "\<exists>z. calculate_z (map (mean_rank (x1 @ x2)) x1) (map (mean_rank (x1 @ x2)) x2) = Inr z
            \<and> mannwhitneyu x1 x2 p = Inr (z_to_p z < p / 2, z_to_p z)"
proof -
  let ?r1 = "map (mean_rank (x1 @ x2)) x1" and ?r2 = "map (mean_rank (x1 @ x2)) x2"
  have u: "U1 ?r1 ?r2 + U2 ?r1 ?r2 = real_of_int (int (length ?r1) * int (length ?r2))"
    using sample_ranks_U_sum [of x1 x2] by simp
  have a: "mean_rank (x1 @ x2) u \<in> set (?r1 @ ?r2)"
    and b: "mean_rank (x1 @ x2) v \<in> set (?r1 @ ?r2)"
    using assms(3,4) by auto
  have ne: "mean_rank (x1 @ x2) u \<noteq> mean_rank (x1 @ x2) v"
    using assms(3-5) by (rule distinct_values_distinct_ranks)
  show pos: "0 < std ?r1 ?r2"
    using assms(1,2) by (intro std_pos [OF _ _ a b ne]) simp_all
  have n: "(int (length ?r1) + int (length ?r2)) * (int (length ?r1) + int (length ?r2) - 1) \<noteq> 0"
    using assms(1,2) by (cases x1; cases x2) simp_all
  show "\<exists>z. calculate_z ?r1 ?r2 = Inr z
            \<and> mannwhitneyu x1 x2 p = Inr (z_to_p z < p / 2, z_to_p z)"
    using pos n by (simp add: mannwhitneyu_value calculate_z_value [OF u])
qed

lemma mannwhitneyu_identical:
  fixes x :: "'a::linorder list"
  assumes "u \<in> set x" "v \<in> set x" "u \<noteq> v"
  shows "mannwhitneyu x x p = Inr (1 < p, 1 / 2)"
proof -
  let ?r = "map (mean_rank (x @ x)) x"
  have x: "x \<noteq> []" using assms(1) by auto
  have u: "U1 ?r ?r + U2 ?r ?r = real_of_int (int (length ?r) * int (length ?r))"
    using sample_ranks_U_sum [of x x] by simp
  have same: "U1 ?r ?r = U2 ?r ?r"
    by (simp add: U1_def U2_def)
  from u same have half: "U1 ?r ?r = real_of_int (int (length ?r) * int (length ?r)) / 2"
    by simp
  have pos: "0 < std ?r ?r"
    using assms by (intro mannwhitneyu_defined(1) [OF x x, of u v]) simp_all
  have n: "(int (length ?r) + int (length ?r)) * (int (length ?r) + int (length ?r) - 1) \<noteq> 0"
    using x by (cases x) simp_all
  have "calculate_z ?r ?r = Inr 0"
    using pos n same half by (simp add: calculate_z_value [OF u])
  then show ?thesis
    by (simp add: mannwhitneyu_value z_to_p_0)
qed

lemma U1_U2_identical: "U1 ranks ranks = U2 ranks ranks"
  by (simp add: U1_def U2_def)

text \<open>
  C4 (amended). For every pair of samples, the ranks are computed without error, and if a
  sample is empty, or \<open>n = n1 + n2 \<le> 1\<close>, or the tie-corrected standard deviation is 0,
  \<open>mannwhitneyu\<close> fails with the \<open>ZeroDivisionError\<close> that the division itself raises (by
  \<open>n * (n - 1)\<close> or by \<open>std\<close>). No other exception can come out of \<open>mannwhitneyu\<close>: there is no
  separate domain check, and the arguments of the square roots are never negative.
\<close>

theorem degenerate_samples_raise:
  fixes x1 x2 :: "'a::linorder list"
  shows "\<exists>rank_dict x1_ranks x2_ranks.
           rank (x1 @ x2) = Inr rank_dict
           \<and> lookup_ranks rank_dict x1 = Inr x1_ranks
           \<and> lookup_ranks rank_dict x2 = Inr x2_ranks
           \<and> (x1 = [] \<or> x2 = [] \<or> length x1 + length x2 \<le> 1 \<or> std x1_ranks x2_ranks = 0
                \<longrightarrow> mannwhitneyu x1 x2 p = Inl ZeroDivisionError)
           \<and> (\<forall>e. mannwhitneyu x1 x2 p = Inl e \<longrightarrow> e = ZeroDivisionError)"
proof -
  let ?r1 = "map (mean_rank (x1 @ x2)) x1" and ?r2 = "map (mean_rank (x1 @ x2)) x2"
  from sample_ranks [of x1 x2] obtain rank_dict where r: "rank (x1 @ x2) = Inr rank_dict"
    and l1: "lookup_ranks rank_dict x1 = Inr ?r1"
    and l2: "lookup_ranks rank_dict x2 = Inr ?r2"
    by blast
  have d: "x1 = [] \<or> x2 = [] \<or> length x1 + length x2 \<le> 1 \<or> std ?r1 ?r2 = 0
             \<longrightarrow> mannwhitneyu x1 x2 p = Inl ZeroDivisionError"
    using mannwhitneyu_degenerate [of x1 x2 p] by blast
  have e: "\<forall>e. mannwhitneyu x1 x2 p = Inl e \<longrightarrow> e = ZeroDivisionError"
    using mannwhitneyu_only_error [of x1 x2 p] by blast
  show ?thesis
    apply (rule exI [of _ rank_dict])
    apply (rule exI [of _ ?r1])
    apply (rule exI [of _ ?r2])
    apply (intro conjI)
        apply (rule r)
       apply (rule l1)
      apply (rule l2)
     apply (rule d)
    apply (rule e)
    done
qed

theorem degenerate_samples_raise_witness:
  "mannwhitneyu ([] :: int list) [1, 2] (1/20) = Inl ZeroDivisionError"
proof -
  from degenerate_samples_raise [of "[] :: int list" "[1, 2]" "1/20"]
  have "([] :: int list) = [] \<longrightarrow> mannwhitneyu ([] :: int list) [1, 2] (1/20) = Inl ZeroDivisionError"
    by blast
  then show ?thesis by simp
qed

text \<open>
  C4 as stated fails: the failure is the division by zero itself, not a domain error
  signalled in its place, both for an empty sample and for two non-empty samples whose
  values are all equal.
\<close>

theorem degenerate_samples_counterexample:
  "mannwhitneyu ([] :: int list) [] (1/20) = Inl ZeroDivisionError
   \<and> mannwhitneyu [1 :: int] [1] (1/20) = Inl ZeroDivisionError"
  by (simp add: mannwhitneyu_degenerate mannwhitneyu_tied)

text \<open>
  C10. Whenever \<open>calculate_z\<close> returns, \<open>z \<le> 0\<close> (the minimum of \<open>U1\<close> and \<open>U2\<close> is at
  most their mean \<open>n1 * n2 / 2\<close> and \<open>std > 0\<close>), so whenever \<open>mannwhitneyu\<close> returns, the
  p-value is at most 0.5: a p-value near 1.0 cannot be returned.
\<close>

theorem p_value_at_most_half:
  fixes x1 x2 :: "'a::linorder list"
  shows "(\<forall>z. calculate_z ranks1 ranks2 = Inr z \<longrightarrow> z \<le> 0 \<and> z_to_p z \<le> 1/2)
       \<and> (\<forall>significant p_val. mannwhitneyu x1 x2 p = Inr (significant, p_val) \<longrightarrow> p_val \<le> 1/2)"
proof (intro conjI allI impI)
  fix z assume "calculate_z ranks1 ranks2 = Inr z"
  then show "z \<le> 0" by (rule calculate_z_nonpos)
  then show "z_to_p z \<le> 1/2" by (rule z_to_p_le_half)
next
  fix significant p_val
  assume "mannwhitneyu x1 x2 p = Inr (significant, p_val)"
  then obtain z where
    "calculate_z (map (mean_rank (x1 @ x2)) x1) (map (mean_rank (x1 @ x2)) x2) = Inr z"
    "p_val = z_to_p z"
    by (auto simp: mannwhitneyu_value split: sum.splits)
  then show "p_val \<le> 1/2"
    using calculate_z_nonpos z_to_p_le_half by blast
qed

theorem p_value_at_most_half_witness:
  "\<exists>significant p_val. mannwhitneyu [1 :: int] [2] (1/20) = Inr (significant, p_val)
      \<and> p_val \<le> 1/2"
proof -
  let ?a = "[1 :: int]" and ?b = "[2 :: int]"
  have "\<exists>z. calculate_z (map (mean_rank (?a @ ?b)) ?a) (map (mean_rank (?a @ ?b)) ?b) = Inr z
          \<and> mannwhitneyu ?a ?b (1/20) = Inr (z_to_p z < (1/20) / 2, z_to_p z)"
    by (rule mannwhitneyu_defined(2) [of _ _ 1 2]) simp_all
  then obtain significant p_val where
    m: "mannwhitneyu [1 :: int] [2] (1/20) = Inr (significant, p_val)"
    by blast
  with p_value_at_most_half [of "[]" "[]" "[1 :: int]" "[2]" "1/20"] have "p_val \<le> 1/2"
    by blast
  with m show ?thesis by blast
qed

text \<open>
  C2 (amended). For every sample \<open>x\<close>, calling the test with \<open>(x, x)\<close> gives \<open>U1 = U2\<close>. If
  \<open>x\<close> has at least two different values, \<open>z = 0\<close> and the call returns the p-value 0.5
  exactly, significant only for a threshold \<open>p > 1\<close>; for \<open>x1 = x2 = [1, 2, 3, 4, 5]\<close> and
  \<open>p = 0.05\<close> the result is \<open>(False, 0.5)\<close>. If all values of \<open>x\<close> are equal (or \<open>x\<close> is empty)
  the call fails with \<open>ZeroDivisionError\<close>.
\<close>

theorem identical_samples:
  fixes x :: "'a::linorder list"
  shows "\<exists>rank_dict x_ranks.
           rank (x @ x) = Inr rank_dict \<and> lookup_ranks rank_dict x = Inr x_ranks
           \<and> U1 x_ranks x_ranks = U2 x_ranks x_ranks
           \<and> ((\<exists>u\<in>set x. \<exists>v\<in>set x. u \<noteq> v) \<longrightarrow> mannwhitneyu x x p = Inr (1 < p, 1/2))
           \<and> ((\<forall>u\<in>set x. \<forall>v\<in>set x. u = v) \<longrightarrow> mannwhitneyu x x p = Inl ZeroDivisionError)"
proof -
  let ?r = "map (mean_rank (x @ x)) x"
  from sample_ranks [of x x] obtain rank_dict where r: "rank (x @ x) = Inr rank_dict"
    and l: "lookup_ranks rank_dict x = Inr ?r"
    by blast
  have a: "(\<exists>u\<in>set x. \<exists>v\<in>set x. u \<noteq> v) \<longrightarrow> mannwhitneyu x x p = Inr (1 < p, 1/2)"
    using mannwhitneyu_identical [of _ x _ p] by blast
  have b: "(\<forall>u\<in>set x. \<forall>v\<in>set x. u = v) \<longrightarrow> mannwhitneyu x x p = Inl ZeroDivisionError"
    using mannwhitneyu_tied [of x x p] by simp
  show ?thesis
    apply (rule exI [of _ rank_dict])
    apply (rule exI [of _ ?r])
    apply (intro conjI)
        apply (rule r)
       apply (rule l)
      apply (rule U1_U2_identical)
     apply (rule a)
    apply (rule b)
    done
qed

theorem identical_samples_witness:
  "(1 :: int) \<in> set [1, 2, 3, 4, 5] \<and> (2 :: int) \<in> set [1, 2, 3, 4, 5] \<and> (1 :: int) \<noteq> 2
   \<and> mannwhitneyu [1, 2, 3, 4, 5 :: int] [1, 2, 3, 4, 5] (1/20) = Inr (False, 1/2)"
proof -
  have "(1 :: int) \<in> set [1, 2, 3, 4, 5]" "(2 :: int) \<in> set [1, 2, 3, 4, 5]" "(1 :: int) \<noteq> 2"
    by simp_all
  then have "\<exists>u\<in>set [1, 2, 3, 4, 5 :: int]. \<exists>v\<in>set [1, 2, 3, 4, 5 :: int]. u \<noteq> v"
    by blast
  with identical_samples [of "[1, 2, 3, 4, 5 :: int]" "1/20"]
  have "mannwhitneyu [1, 2, 3, 4, 5 :: int] [1, 2, 3, 4, 5] (1/20) = Inr (1 < (1/20 :: real), 1/2)"
    by blast
  then show ?thesis by simp
qed

text \<open>
  C2 as stated fails: for \<open>x1 = x2 = [1, 2, 3, 4, 5]\<close> the p-value is 0.5, not near 1.0,
  and for the non-empty sample \<open>[1]\<close> the call returns nothing.
\<close>

theorem identical_samples_counterexample:
  "mannwhitneyu [1, 2, 3, 4, 5 :: int] [1, 2, 3, 4, 5] (1/20) = Inr (False, 1/2)
   \<and> mannwhitneyu [1 :: int] [1] (1/20) = Inl ZeroDivisionError"
proof -
  have "mannwhitneyu [1, 2, 3, 4, 5 :: int] [1, 2, 3, 4, 5] (1/20) = Inr (1 < (1/20 :: real), 1/2)"
    by (rule mannwhitneyu_identical [of 1 _ 2]) simp_all
  moreover have "mannwhitneyu [1 :: int] [1] (1/20) = Inl ZeroDivisionError"
    by (simp add: mannwhitneyu_tied)
  ultimately show ?thesis by simp
qed

end
